theory Spec2Isabelle
  imports
    Complex_Main
    "HOL-Library.Char_ord"
    "HOL-Library.List_Lexorder"
    "HOL-Library.AList"
    "HOL-Library.Multiset"
begin

chapter \<open>A shallow embedding of the codebase indexer\<close>

text \<open>
  The development follows the TypeScript sources of the indexer: the vector-store id
  derivation (\<^verbatim>\<open>sha256ToUuid\<close>), the AST chunker, the Merkle summary, the dataset
  loader of the benchmark harness, the indexing pipeline and the retriever.

  Conventions. JavaScript strings are modelled as \<^typ>\<open>string\<close>, one \<^typ>\<open>char\<close> per code
  unit. Line numbers and indices are natural numbers; wherever the source subtracts,
  the guard that keeps the difference non-negative is part of the model. External
  collaborators (the SHA-256 digest, the tree-sitter parser, the embedding provider,
  the Qdrant client, the file system, the clock) are parameters of the functions that
  call them; a call that can throw returns a sum, with \<open>Inl\<close> for the exception.
\<close>

section \<open>JavaScript string and array helpers\<close>

text \<open>\<^verbatim>\<open>s.substring(a, b)\<close>: both indices are clamped to the length and swapped when
  \<open>a > b\<close>.\<close>

definition substring :: "string \<Rightarrow> nat \<Rightarrow> nat \<Rightarrow> string" where
  "substring s a b = (let lo = min a b; hi = max a b in take (hi - lo) (drop lo s))"

text \<open>An array of strings that may have holes: \<open>None\<close> is \<^verbatim>\<open>undefined\<close>.
  \<^verbatim>\<open>s.split('')\<close> gives one one-character string per code unit.\<close>

definition split_chars :: "string \<Rightarrow> string option list" where
  "split_chars s = map (\<lambda>c. Some [c]) s"

text \<open>\<^verbatim>\<open>xs[i]\<close>: reading past the end gives \<^verbatim>\<open>undefined\<close>.\<close>

definition array_get :: "'a option list \<Rightarrow> nat \<Rightarrow> 'a option" where
  "array_get xs i = (if i < length xs then xs ! i else None)"

text \<open>\<^verbatim>\<open>xs[i] = v\<close>: writing past the end extends the array, leaving holes.\<close>

definition array_set :: "'a option list \<Rightarrow> nat \<Rightarrow> 'a \<Rightarrow> 'a option list" where
  "array_set xs i v =
     (if i < length xs then xs[i := Some v]
      else xs @ replicate (i - length xs) None @ [Some v])"

text \<open>\<^verbatim>\<open>xs.join('')\<close>: holes and \<^verbatim>\<open>undefined\<close> are joined as the empty string.\<close>

definition join_empty :: "string option list \<Rightarrow> string" where
  "join_empty xs = concat (map (\<lambda>v. case v of None \<Rightarrow> [] | Some s \<Rightarrow> s) xs)"

text \<open>\<^verbatim>\<open>parseInt(v, 16)\<close> for the values \<^verbatim>\<open>sha256ToUuid\<close> passes: a one-character
  string or \<^verbatim>\<open>undefined\<close>. \<open>None\<close> is \<^verbatim>\<open>NaN\<close>.\<close>

definition hex_digit_value :: "char \<Rightarrow> nat option" where
  "hex_digit_value c =
     (let n = of_char c :: nat in
      if 48 \<le> n \<and> n \<le> 57 then Some (n - 48)
      else if 97 \<le> n \<and> n \<le> 102 then Some (n - 87)
      else if 65 \<le> n \<and> n \<le> 70 then Some (n - 55)
      else None)"

definition parseInt16 :: "string option \<Rightarrow> nat option" where
  "parseInt16 v = (case v of Some [c] \<Rightarrow> hex_digit_value c | _ \<Rightarrow> None)"

text \<open>\<^verbatim>\<open>(v & 0x3) | 0x8\<close>: the bitwise operators read \<^verbatim>\<open>NaN\<close> as \<open>0\<close>.\<close>

definition variant_bits :: "nat option \<Rightarrow> nat" where
  "variant_bits v = or (and (case v of None \<Rightarrow> 0 | Some n \<Rightarrow> n) 3) 8"

text \<open>\<^verbatim>\<open>n.toString(16)\<close> for a non-negative integer.\<close>

definition hex_char :: "nat \<Rightarrow> char" where
  "hex_char d = ''0123456789abcdef'' ! (d mod 16)"

fun toString16 :: "nat \<Rightarrow> string" where
  "toString16 n = (if n < 16 then [hex_char n] else toString16 (n div 16) @ [hex_char (n mod 16)])"

declare toString16.simps [simp del]

section \<open>Vector-store record ids\<close>

text \<open>\<^verbatim>\<open>sha256ToUuid\<close> (vector-store.ts): the first 32 hex characters in the 8-4-4-4-12
  layout, then the version and variant characters overwritten.\<close>

definition uuid_layout :: "string \<Rightarrow> string" where
  "uuid_layout sha256Hex =
     (let hex = substring sha256Hex 0 32 in
      substring hex 0 8 @ ''-'' @ substring hex 8 12 @ ''-'' @ substring hex 12 16 @ ''-''
        @ substring hex 16 20 @ ''-'' @ substring hex 20 32)"

definition sha256ToUuid :: "string \<Rightarrow> string" where
  "sha256ToUuid sha256Hex =
     (let uuid = uuid_layout sha256Hex;
          chars = split_chars uuid;
          chars = array_set chars 14 ''5'';
          variantChar = parseInt16 (array_get chars 19);
          chars = array_set chars 19 (toString16 (variant_bits variantChar))
      in join_empty chars)"

text \<open>A lowercase hexadecimal digest of SHA-256: 64 characters of \<open>0-9a-f\<close>.\<close>

definition is_sha256_hex :: "string \<Rightarrow> bool" where
  "is_sha256_hex h \<longleftrightarrow> length h = 64 \<and> list_all (\<lambda>c. c \<in> set ''0123456789abcdef'') h"

section \<open>SHA-256\<close>

text \<open>
  The digest \<^verbatim>\<open>createHash('sha256').update(s).digest('hex')\<close> of the Node.js library
  \<^verbatim>\<open>crypto\<close>, which every hash of the indexer goes through: SHA-256 after FIPS 180-4, over
  the UTF-8 bytes of the string, written as 64 lowercase hexadecimal digits. A 32-bit word
  is a natural number below \<open>2^32\<close>.
\<close>

definition add32 :: "nat \<Rightarrow> nat \<Rightarrow> nat" where
  "add32 x y = (x + y) mod 4294967296"

definition rotr32 :: "nat \<Rightarrow> nat \<Rightarrow> nat" where
  "rotr32 n x = x div 2 ^ n + (x mod 2 ^ n) * 2 ^ (32 - n)"

definition shr32 :: "nat \<Rightarrow> nat \<Rightarrow> nat" where
  "shr32 n x = x div 2 ^ n"

definition not32 :: "nat \<Rightarrow> nat" where
  "not32 x = 4294967295 - x"

definition sha_K :: "nat list" where
  "sha_K = [1116352408, 1899447441, 3049323471, 3921009573, 961987163, 1508970993,
      2453635748, 2870763221, 3624381080, 310598401, 607225278, 1426881987,
      1925078388, 2162078206, 2614888103, 3248222580, 3835390401, 4022224774,
      264347078, 604807628, 770255983, 1249150122, 1555081692, 1996064986,
      2554220882, 2821834349, 2952996808, 3210313671, 3336571891, 3584528711,
      113926993, 338241895, 666307205, 773529912, 1294757372, 1396182291,
      1695183700, 1986661051, 2177026350, 2456956037, 2730485921, 2820302411,
      3259730800, 3345764771, 3516065817, 3600352804, 4094571909, 275423344,
      430227734, 506948616, 659060556, 883997877, 958139571, 1322822218,
      1537002063, 1747873779, 1955562222, 2024104815, 2227730452, 2361852424,
      2428436474, 2756734187, 3204031479, 3329325298]"

definition sha_H0 :: "nat list" where
  "sha_H0 = [1779033703, 3144134277, 1013904242, 2773480762, 1359893119, 2600822924,
      528734635, 1541459225]"

definition big_sigma0 :: "nat \<Rightarrow> nat" where
  "big_sigma0 x = xor (xor (rotr32 2 x) (rotr32 13 x)) (rotr32 22 x)"

definition big_sigma1 :: "nat \<Rightarrow> nat" where
  "big_sigma1 x = xor (xor (rotr32 6 x) (rotr32 11 x)) (rotr32 25 x)"

definition small_sigma0 :: "nat \<Rightarrow> nat" where
  "small_sigma0 x = xor (xor (rotr32 7 x) (rotr32 18 x)) (shr32 3 x)"

definition small_sigma1 :: "nat \<Rightarrow> nat" where
  "small_sigma1 x = xor (xor (rotr32 17 x) (rotr32 19 x)) (shr32 10 x)"

definition sha_ch :: "nat \<Rightarrow> nat \<Rightarrow> nat \<Rightarrow> nat" where
  "sha_ch x y z = xor (and x y) (and (not32 x) z)"

definition sha_maj :: "nat \<Rightarrow> nat \<Rightarrow> nat \<Rightarrow> nat" where
  "sha_maj x y z = xor (xor (and x y) (and x z)) (and y z)"

text \<open>The message schedule, newest word first: one more word for every element of the
  first argument. With \<open>ws = [W(t-1), W(t-2), \<dots>]\<close> the next word is
  \<open>\<sigma>1(W(t-2)) + W(t-7) + \<sigma>0(W(t-15)) + W(t-16)\<close>.\<close>

fun schedule :: "'a list \<Rightarrow> nat list \<Rightarrow> nat list" where
  "schedule [] ws = ws"
| "schedule (u # us) ws =
     schedule us (add32 (add32 (small_sigma1 (ws ! 1)) (ws ! 6))
                        (add32 (small_sigma0 (ws ! 14)) (ws ! 15)) # ws)"

definition next_state :: "nat \<Rightarrow> nat \<Rightarrow> nat list \<Rightarrow> nat list" where
  "next_state t1 t2 st =
     (case st of
        [a, b, c, d, e, f, g, h] \<Rightarrow> [add32 t1 t2, a, b, c, add32 d t1, e, f, g]
      | _ \<Rightarrow> st)"

fun rounds :: "nat list \<Rightarrow> nat list \<Rightarrow> nat list \<Rightarrow> nat list" where
  "rounds [a, b, c, d, e, f, g, h] (k # ks) (w # ws) =
     rounds (next_state
               (add32 (add32 (add32 h (big_sigma1 e)) (add32 (sha_ch e f g) k)) w)
               (add32 (big_sigma0 a) (sha_maj a b c))
               [a, b, c, d, e, f, g, h]) ks ws"
| "rounds st ks ws = st"

fun be_words :: "nat list \<Rightarrow> nat list" where
  "be_words (a # b # c # d # rest) =
     (((a * 256 + b) * 256 + c) * 256 + d) # be_words rest"
| "be_words bs = []"

definition compress :: "nat list \<Rightarrow> nat list \<Rightarrow> nat list" where
  "compress st block =
     map2 add32 st (rounds st sha_K (rev (schedule (drop 16 sha_K) (rev (be_words block)))))"

definition be_bytes8 :: "nat \<Rightarrow> nat list" where
  "be_bytes8 n =
     [n div 72057594037927936 mod 256, n div 281474976710656 mod 256,
      n div 1099511627776 mod 256, n div 4294967296 mod 256,
      n div 16777216 mod 256, n div 65536 mod 256, n div 256 mod 256, n mod 256]"

definition sha_pad :: "nat list \<Rightarrow> nat list" where
  "sha_pad msg =
     msg @ [128] @ replicate ((119 - length msg mod 64) mod 64) 0 @ be_bytes8 (8 * length msg)"

function blocks64 :: "nat list \<Rightarrow> nat list list" where
  "blocks64 bs = (if length bs < 64 then [] else take 64 bs # blocks64 (drop 64 bs))"
  by pat_completeness auto
termination
  by (relation "measure length") auto

declare blocks64.simps [simp del]

definition hex8 :: "nat \<Rightarrow> string" where
  "hex8 w =
     [hex_char (w div 268435456), hex_char (w div 16777216), hex_char (w div 1048576),
      hex_char (w div 65536), hex_char (w div 4096), hex_char (w div 256),
      hex_char (w div 16), hex_char w]"

text \<open>The UTF-8 bytes of a character with a code below 256.\<close>

definition utf8 :: "char \<Rightarrow> nat list" where
  "utf8 c = (if of_char c < (128 :: nat) then [of_char c]
             else [192 + of_char c div 64, 128 + of_char c mod 64])"

definition sha256_hex :: "string \<Rightarrow> string" where
  "sha256_hex s =
     concat (map hex8 (foldl compress sha_H0 (blocks64 (sha_pad (concat (map utf8 s))))))"


section \<open>Syntax trees of the parser\<close>

text \<open>
  The tree-sitter parser is external. A node is modelled by what the chunker reads from
  it: its type, the rows of its start and end positions, its text, and its children in
  source order, each with the field name under which the parent holds it (if any).
\<close>

datatype SyntaxNode = SyntaxNode
  (ntype: string) (startRow: nat) (endRow: nat) (ntext: string)
  (nchildren: "(string option \<times> SyntaxNode) list")

definition child_nodes :: "SyntaxNode \<Rightarrow> SyntaxNode list" where
  "child_nodes node = map snd (nchildren node)"

text \<open>\<^verbatim>\<open>node.childForFieldName(f)\<close>: the first child held under the field \<open>f\<close>.\<close>

definition childForFieldName :: "SyntaxNode \<Rightarrow> string \<Rightarrow> SyntaxNode option" where
  "childForFieldName node f = map_option snd (find (\<lambda>(g, c). g = Some f) (nchildren node))"

lemma size_child: "(f, c) \<in> set (nchildren n) \<Longrightarrow> size c < size n"
  by (cases n)
     (auto simp: less_Suc_eq_le
           dest!: size_list_estimation'[where f = "size_prod (\<lambda>_. 0) size" and y = "size c"])

lemma size_child_nodes: "c \<in> set (child_nodes n) \<Longrightarrow> size c < size n"
  unfolding child_nodes_def by (auto dest: size_child)

lemma size_childForFieldName: "childForFieldName n f = Some c \<Longrightarrow> size c < size n"
  unfolding childForFieldName_def by (auto simp: find_Some_iff dest!: nth_mem size_child)

text \<open>A loop over a list that returns from its first iteration with a result.\<close>

fun first_some :: "('a \<Rightarrow> 'b option) \<Rightarrow> 'a list \<Rightarrow> 'b option" where
  "first_some f [] = None"
| "first_some f (x # xs) = (case f x of Some y \<Rightarrow> Some y | None \<Rightarrow> first_some f xs)"

lemma first_some_cong [fundef_cong]:
  "xs = ys \<Longrightarrow> (\<And>x. x \<in> set ys \<Longrightarrow> f x = g x) \<Longrightarrow> first_some f xs = first_some g ys"
  by (induction ys arbitrary: xs) (auto split: option.splits)

lemma first_some_SomeD: "first_some f xs = Some y \<Longrightarrow> \<exists>x \<in> set xs. f x = Some y"
  by (induction xs) (auto split: option.splits)

section \<open>The chunker: node kinds\<close>

definition SEMANTIC_NODE_TYPES :: "string set" where
  "SEMANTIC_NODE_TYPES =
     {''function_declaration'', ''generator_function_declaration'', ''class_declaration'',
      ''abstract_class_declaration'', ''interface_declaration'', ''type_alias_declaration'',
      ''enum_declaration'', ''module'', ''export_statement'', ''import_statement'',
      ''lexical_declaration'', ''variable_declaration'', ''expression_statement''}"

definition CONTAINER_NODE_TYPES :: "string set" where
  "CONTAINER_NODE_TYPES =
     {''class_declaration'', ''abstract_class_declaration'', ''interface_declaration''}"

definition METHOD_NODE_TYPES :: "string set" where
  "METHOD_NODE_TYPES =
     {''method_definition'', ''public_field_definition'', ''property_signature'',
      ''method_signature'', ''abstract_method_signature'', ''property_definition''}"

definition FUNCTION_NODE_TYPES :: "string set" where
  "FUNCTION_NODE_TYPES =
     {''function_declaration'', ''generator_function_declaration'', ''arrow_function'',
      ''function'', ''method_definition''}"

definition OBJECT_PROPERTY_TYPES :: "string set" where
  "OBJECT_PROPERTY_TYPES =
     {''pair'', ''method_definition'', ''spread_element'', ''shorthand_property_identifier''}"

definition LOGICAL_BLOCK_TYPES :: "string set" where
  "LOGICAL_BLOCK_TYPES =
     {''if_statement'', ''for_statement'', ''for_in_statement'', ''while_statement'',
      ''do_statement'', ''switch_statement'', ''try_statement'', ''return_statement'',
      ''throw_statement'', ''lexical_declaration'', ''variable_declaration'',
      ''expression_statement''}"

section \<open>The chunker: segments\<close>

text \<open>The interface \<^verbatim>\<open>Segment\<close>: 0-based line numbers; \<open>symbolName\<close> and
  \<open>functionBlocks\<close> are optional.\<close>

datatype Segment = Segment
  (startLine: nat) (endLine: nat) (nodeType: string) (symbolName: "string option")
  (children: "Segment list") (functionBlocks: "Segment list option")

text \<open>JavaScript truthiness of an optional string, and its rendering in a template
  literal.\<close>

definition truthy :: "string option \<Rightarrow> bool" where
  "truthy v \<longleftrightarrow> (case v of None \<Rightarrow> False | Some s \<Rightarrow> s \<noteq> [])"

definition template :: "string option \<Rightarrow> string" where
  "template v = (case v of None \<Rightarrow> ''undefined'' | Some s \<Rightarrow> s)"

definition digit_char :: "nat \<Rightarrow> char" where
  "digit_char d = ''0123456789'' ! (d mod 10)"

fun toString10 :: "nat \<Rightarrow> string" where
  "toString10 n = (if n < 10 then [digit_char n] else toString10 (n div 10) @ [digit_char (n mod 10)])"

declare toString10.simps [simp del]

section \<open>The chunker: extraction\<close>

function extractSymbolName :: "SyntaxNode \<Rightarrow> string option" where
  "extractSymbolName node =
     (case childForFieldName node ''name'' of
        Some nameNode \<Rightarrow> Some (ntext nameNode)
      | None \<Rightarrow>
          if ntype node = ''export_statement'' then
            (case childForFieldName node ''declaration'' of
               Some decl \<Rightarrow> extractSymbolName decl
             | None \<Rightarrow>
                 (case childForFieldName node ''value'' of
                    Some v \<Rightarrow> Some ''default''
                  | None \<Rightarrow> None))
          else None)"
  by pat_completeness auto
termination
  by (relation "measure size") (auto dest: size_childForFieldName)

declare extractSymbolName.simps [simp del]

definition extractPropertyName :: "SyntaxNode \<Rightarrow> string option" where
  "extractPropertyName node =
     (case (if ntype node = ''pair'' then childForFieldName node ''key'' else None) of
        Some key \<Rightarrow> Some (ntext key)
      | None \<Rightarrow>
     (case (if ntype node = ''method_definition'' then childForFieldName node ''name'' else None) of
        Some name \<Rightarrow> Some (ntext name)
      | None \<Rightarrow>
          if ntype node = ''spread_element'' then
            Some (''...'' @ (if 1 < length (child_nodes node) then ntext (child_nodes node ! 1) else ''''))
          else None))"

function findInnerFunction :: "SyntaxNode \<Rightarrow> SyntaxNode option" where
  "findInnerFunction node =
     first_some
       (\<lambda>child.
          if ntype child \<in> FUNCTION_NODE_TYPES then Some child
          else if ntype child = ''parenthesized_expression'' \<or> ntype child = ''await_expression''
                  \<or> ntype child = ''as_expression''
               then findInnerFunction child
               else None)
       (child_nodes node)"
  by pat_completeness auto
termination
  by (relation "measure size") (auto dest: size_child_nodes)

declare findInnerFunction.simps [simp del]

lemma size_findInnerFunction: "findInnerFunction n = Some m \<Longrightarrow> size m < size n"
proof (induction n arbitrary: m rule: findInnerFunction.induct)
  case (1 node)
  from "1.prems" obtain child where c: "child \<in> set (child_nodes node)"
    and r: "(if ntype child \<in> FUNCTION_NODE_TYPES then Some child
          else if ntype child = ''parenthesized_expression'' \<or> ntype child = ''await_expression''
                  \<or> ntype child = ''as_expression''
               then findInnerFunction child
               else None) = Some m"
    by (subst (asm) findInnerFunction.simps) (blast dest: first_some_SomeD)
  have lt: "size child < size node" using c by (rule size_child_nodes)
  show ?case
  proof (cases "ntype child \<in> FUNCTION_NODE_TYPES")
    case True
    with r lt show ?thesis by simp
  next
    case False
    with r have "findInnerFunction child = Some m" by (simp split: if_splits)
    with "1.IH"[OF c False] r False have "size m < size child" by (auto split: if_splits)
    with lt show ?thesis by simp
  qed
qed

definition findContainerNode :: "SyntaxNode \<Rightarrow> SyntaxNode option" where
  "findContainerNode node =
     (if ntype node \<in> CONTAINER_NODE_TYPES then Some node
      else if ntype node = ''export_statement'' then
        (case childForFieldName node ''declaration'' of
           Some decl \<Rightarrow> if ntype decl \<in> CONTAINER_NODE_TYPES then Some decl else None
         | None \<Rightarrow> None)
      else None)"

definition function_typed :: "SyntaxNode option \<Rightarrow> SyntaxNode option" where
  "function_typed v =
     (case v of Some n \<Rightarrow> if ntype n \<in> FUNCTION_NODE_TYPES then Some n else None | None \<Rightarrow> None)"

definition findFunctionNode :: "SyntaxNode \<Rightarrow> SyntaxNode option" where
  "findFunctionNode node =
     (if ntype node \<in> FUNCTION_NODE_TYPES then Some node
      else if ntype node = ''export_statement'' then
        (case function_typed (childForFieldName node ''declaration'') of
           Some decl \<Rightarrow> Some decl
         | None \<Rightarrow> function_typed (childForFieldName node ''value''))
      else if ntype node = ''lexical_declaration'' \<or> ntype node = ''variable_declaration'' then
        first_some
          (\<lambda>child. if ntype child = ''variable_declarator''
                    then function_typed (childForFieldName child ''value'') else None)
          (child_nodes node)
      else None)"

text \<open>The first declarator of a declaration that has a value, and that value.\<close>

definition first_declarator_value :: "SyntaxNode \<Rightarrow> SyntaxNode option" where
  "first_declarator_value node =
     first_some
       (\<lambda>child. if ntype child = ''variable_declarator''
                 then childForFieldName child ''value'' else None)
       (child_nodes node)"

lemma size_first_declarator_value: "first_declarator_value n = Some v \<Longrightarrow> size v < size n"
  unfolding first_declarator_value_def
  by (fastforce dest!: first_some_SomeD dest: size_child_nodes size_childForFieldName
        split: if_splits)

function findObjectLiteral :: "SyntaxNode \<Rightarrow> SyntaxNode option" where
  "findObjectLiteral node =
     (if ntype node = ''export_statement'' then
        (case childForFieldName node ''declaration'' of
           Some decl \<Rightarrow> findObjectLiteral decl
         | None \<Rightarrow>
             (case childForFieldName node ''value'' of
                Some v \<Rightarrow> findObjectLiteral v
              | None \<Rightarrow> None))
      else if ntype node = ''lexical_declaration'' \<or> ntype node = ''variable_declaration'' then
        (case first_declarator_value node of
           Some v \<Rightarrow> findObjectLiteral v
         | None \<Rightarrow> None)
      else if ntype node = ''satisfies_expression'' \<or> ntype node = ''as_expression'' then
        find (\<lambda>child. ntype child = ''object'') (child_nodes node)
      else if ntype node = ''object'' then Some node
      else None)"
  by pat_completeness auto
termination
  by (relation "measure size")
     (auto dest: size_childForFieldName size_first_declarator_value)

declare findObjectLiteral.simps [simp del]

text \<open>A loop over sibling nodes that attaches a run of comments to the next node it
  keeps: \<open>keep\<close> says which nodes are kept, \<open>mk\<close> builds the segment from the start line
  and the node. Any other node resets the pending comment.\<close>

fun attach_comments ::
  "(SyntaxNode \<Rightarrow> bool) \<Rightarrow> (nat \<Rightarrow> SyntaxNode \<Rightarrow> Segment) \<Rightarrow> nat option \<Rightarrow> SyntaxNode list
     \<Rightarrow> Segment list" where
  "attach_comments keep mk pendingCommentStart [] = []"
| "attach_comments keep mk pendingCommentStart (child # rest) =
     (if ntype child = ''comment'' then
        attach_comments keep mk
          (case pendingCommentStart of None \<Rightarrow> Some (startRow child) | Some p \<Rightarrow> Some p) rest
      else if keep child then
        mk (case pendingCommentStart of Some p \<Rightarrow> p | None \<Rightarrow> startRow child) child
          # attach_comments keep mk None rest
      else attach_comments keep mk None rest)"

definition extractContainerChildren :: "SyntaxNode \<Rightarrow> Segment list" where
  "extractContainerChildren node =
     (case childForFieldName node ''body'' of
        None \<Rightarrow> []
      | Some body \<Rightarrow>
          attach_comments (\<lambda>child. ntype child \<in> METHOD_NODE_TYPES)
            (\<lambda>startLine child.
               Segment startLine (endRow child) (ntype child) (extractSymbolName child) [] None)
            None (child_nodes body))"

text \<open>\<^verbatim>\<open>getBodyStatements\<close>: the statements of every block of a compound statement,
  and the \<^verbatim>\<open>if\<close> of an else-if chain.\<close>

definition block_statements :: "SyntaxNode \<Rightarrow> SyntaxNode list" where
  "block_statements block =
     filter (\<lambda>stmt. ntype stmt \<noteq> ''{'' \<and> ntype stmt \<noteq> ''}'') (child_nodes block)"

definition getBodyStatements :: "SyntaxNode \<Rightarrow> SyntaxNode list" where
  "getBodyStatements node =
     concat (map (\<lambda>child.
        (if ntype child = ''statement_block'' then block_statements child else [])
        @ (if ntype child = ''else_clause'' \<or> ntype child = ''catch_clause''
              \<or> ntype child = ''finally_clause''
           then concat (map (\<lambda>inner.
                  (if ntype inner = ''statement_block'' then block_statements inner else [])
                  @ (if ntype inner = ''if_statement'' then [inner] else []))
                (child_nodes child))
           else []))
      (child_nodes node))"

definition block_segment :: "SyntaxNode \<Rightarrow> Segment" where
  "block_segment child = Segment (startRow child) (endRow child) (ntype child) None [] None"

fun collectLogicalBlocks :: "nat \<Rightarrow> SyntaxNode list \<Rightarrow> Segment list" where
  "collectLogicalBlocks maxDepth stmts =
     concat (map (\<lambda>child.
        if ntype child \<notin> LOGICAL_BLOCK_TYPES then []
        else
          (let blockLines = endRow child + 1 - startRow child in
           if blockLines > 15 \<and> maxDepth > 0 then
             (let innerStmts = getBodyStatements child in
              if length innerStmts > 1 then
                (let innerBlocks = collectLogicalBlocks (maxDepth - 1) innerStmts in
                 if length innerBlocks > 1 then innerBlocks else [block_segment child])
              else [block_segment child])
           else [block_segment child]))
      stmts)"

declare collectLogicalBlocks.simps [simp del]

function extractFunctionBlocks :: "SyntaxNode \<Rightarrow> Segment list" where
  "extractFunctionBlocks node =
     (case childForFieldName node ''body'' of
        None \<Rightarrow> []
      | Some body \<Rightarrow>
          if ntype body \<noteq> ''statement_block'' then []
          else
            (let stmts = block_statements body in
             case (if length stmts = 1 \<and> ntype (hd stmts) = ''return_statement''
                   then findInnerFunction (hd stmts) else None) of
               Some innerFunc \<Rightarrow> extractFunctionBlocks innerFunc
             | None \<Rightarrow> collectLogicalBlocks 2 stmts))"
  by pat_completeness auto
termination
proof (relation "measure size", simp, goal_cases)
  case (1 node body stmts innerFunc)
  from 1 have one: "length (block_statements body) = 1"
    and inner: "findInnerFunction (hd (block_statements body)) = Some innerFunc"
    by (auto split: if_splits)
  from one have "hd (block_statements body) \<in> set (block_statements body)"
    by (cases "block_statements body") auto
  then have "hd (block_statements body) \<in> set (child_nodes body)"
    by (simp add: block_statements_def)
  then have "size (hd (block_statements body)) < size body" by (rule size_child_nodes)
  moreover have "size innerFunc < size (hd (block_statements body))"
    using inner by (rule size_findInnerFunction)
  moreover have "size body < size node" using 1 by (auto dest: size_childForFieldName)
  ultimately show ?case by simp
qed

declare extractFunctionBlocks.simps [simp del]

definition extractObjectProperties :: "SyntaxNode \<Rightarrow> Segment list" where
  "extractObjectProperties objectNode =
     attach_comments (\<lambda>child. ntype child \<in> OBJECT_PROPERTY_TYPES)
       (\<lambda>startLine child.
          Segment startLine (endRow child) (ntype child) (extractPropertyName child) []
            (if ntype child = ''method_definition''
             then Some (extractFunctionBlocks child) else None))
       None (child_nodes objectNode)"

definition topLevelSegment :: "nat \<Rightarrow> SyntaxNode \<Rightarrow> Segment" where
  "topLevelSegment start child =
     (let containerNode = findContainerNode child;
          children = (case containerNode of
                        Some c \<Rightarrow> extractContainerChildren c | None \<Rightarrow> []);
          funcNode = (case containerNode of
                        None \<Rightarrow> findFunctionNode child | Some c \<Rightarrow> None);
          functionBlocks = map_option extractFunctionBlocks funcNode;
          children =
            (if children = [] \<and> funcNode = None then
               (case findObjectLiteral child of
                  Some objNode \<Rightarrow> extractObjectProperties objNode
                | None \<Rightarrow> children)
             else children)
      in Segment start (endRow child) (ntype child) (extractSymbolName child)
           children functionBlocks)"

definition extractTopLevelSegments :: "SyntaxNode \<Rightarrow> Segment list" where
  "extractTopLevelSegments rootNode =
     attach_comments
       (\<lambda>child. \<not> (ntype child = ''ERROR'' \<or> ntype child \<notin> SEMANTIC_NODE_TYPES))
       topLevelSegment None (child_nodes rootNode)"

section \<open>The chunker: oversize expansion\<close>

text \<open>\<^verbatim>\<open>estimateTokens\<close>: the loop runs over \<open>startLine \<le> i \<le> min(endLine, lines.length - 1)\<close>,
  that is over \<open>i < endLine + 1\<close> and \<open>i < lines.length\<close>; \<^verbatim>\<open>Math.ceil(n / 4)\<close> is
  \<open>(n + 3) div 4\<close>.\<close>

definition estimateTokens :: "string list \<Rightarrow> nat \<Rightarrow> nat \<Rightarrow> nat" where
  "estimateTokens lines s e =
     (let charCount =
        sum_list (map (\<lambda>i. length (lines ! i) + 1) [s ..< min (e + 1) (length lines)])
      in (charCount + 3) div 4)"

definition part_segment :: "Segment \<Rightarrow> nat \<Rightarrow> nat \<Rightarrow> nat \<Rightarrow> Segment" where
  "part_segment seg s e partIdx =
     Segment s e (nodeType seg @ ''_part'')
       (Some (if truthy (symbolName seg)
              then template (symbolName seg) @ '' (part '' @ toString10 partIdx @ '')''
              else ''(part '' @ toString10 partIdx @ '')''))
       [] None"

text \<open>\<^verbatim>\<open>splitByLineCount\<close>. The loop state is \<open>(partIdx, chunkStart, chunkChars, result)\<close>;
  \<^verbatim>\<open>lines[i]?.length ?? 0\<close> is \<open>0\<close> past the end of the file.\<close>

definition lineCountStep ::
  "nat \<Rightarrow> Segment \<Rightarrow> string list \<Rightarrow> nat \<times> nat \<times> nat \<times> Segment list \<Rightarrow> nat
     \<Rightarrow> nat \<times> nat \<times> nat \<times> Segment list" where
  "lineCountStep maxChars seg lines st i =
     (case st of (partIdx, chunkStart, chunkChars, result) \<Rightarrow>
        (let lineChars = (if i < length lines then length (lines ! i) else 0) + 1 in
         if chunkChars + lineChars > maxChars \<and> i > chunkStart then
           (partIdx + 1, i, 0 + lineChars,
            result @ [part_segment seg chunkStart (i - 1) (partIdx + 1)])
         else (partIdx, chunkStart, chunkChars + lineChars, result)))"

definition splitByLineCount ::
  "nat \<Rightarrow> Segment \<Rightarrow> string list \<Rightarrow> Segment list \<Rightarrow> Segment list" where
  "splitByLineCount maxChunkTokens seg lines result =
     (let maxChars = maxChunkTokens * 4 in
      case foldl (lineCountStep maxChars seg lines) (0, startLine seg, 0, result)
             [startLine seg ..< endLine seg + 1] of
        (partIdx, chunkStart, chunkChars, result) \<Rightarrow>
          if chunkStart \<le> endLine seg
          then result @ [part_segment seg chunkStart (endLine seg) (partIdx + 1)]
          else result)"

text \<open>\<^verbatim>\<open>splitContainer\<close>. The loop state is \<open>(lastEnd, result)\<close>. The header's end line
  \<open>child.startLine - 1\<close> is only computed under \<open>child.startLine > lastEnd\<close>.\<close>

definition childSymbol :: "Segment \<Rightarrow> Segment \<Rightarrow> string option" where
  "childSymbol seg child =
     (if truthy (symbolName child)
      then Some (template (symbolName seg) @ ''.'' @ template (symbolName child))
      else symbolName seg)"

definition containerStep ::
  "nat \<Rightarrow> Segment \<Rightarrow> string list \<Rightarrow> nat \<times> Segment list \<Rightarrow> Segment \<Rightarrow> nat \<times> Segment list" where
  "containerStep minChunkTokens seg lines st child =
     (case st of (lastEnd, result) \<Rightarrow>
        (if startLine child > lastEnd then
           (let gapTokens = estimateTokens lines lastEnd (startLine child - 1) in
            if gapTokens \<ge> minChunkTokens then
              (endLine child + 1,
               result @
                 [Segment lastEnd (startLine child - 1) (nodeType seg @ ''_header'')
                    (symbolName seg) [] None,
                  Segment (startLine child) (endLine child) (nodeType child)
                    (childSymbol seg child) [] (functionBlocks child)])
            else
              (endLine child + 1,
               result @
                 [Segment lastEnd (endLine child) (nodeType child)
                    (childSymbol seg child) [] (functionBlocks child)]))
         else
           (endLine child + 1,
            result @
              [Segment (min lastEnd (startLine child)) (endLine child) (nodeType child)
                 (childSymbol seg child) [] (functionBlocks child)])))"

text \<open>\<^verbatim>\<open>result[result.length - 1].endLine = v\<close> on a non-empty array.\<close>

definition set_last_endLine :: "Segment list \<Rightarrow> nat \<Rightarrow> Segment list" where
  "set_last_endLine result v =
     butlast result @
       [case last result of Segment s e t n c f \<Rightarrow> Segment s v t n c f]"

definition splitContainer ::
  "nat \<Rightarrow> Segment \<Rightarrow> string list \<Rightarrow> Segment list \<Rightarrow> Segment list" where
  "splitContainer minChunkTokens seg lines result =
     (case foldl (containerStep minChunkTokens seg lines) (startLine seg, result) (children seg) of
        (lastEnd, result) \<Rightarrow>
          if lastEnd \<le> endLine seg then
            (let trailingTokens = estimateTokens lines lastEnd (endLine seg) in
             if trailingTokens \<ge> minChunkTokens then
               result @ [Segment lastEnd (endLine seg) (nodeType seg @ ''_footer'')
                           (symbolName seg) [] None]
             else if length result > 0 then set_last_endLine result (endLine seg)
             else result)
          else result)"

text \<open>\<^verbatim>\<open>splitByBlocks\<close>. The loop over \<open>blocks[1..]\<close> has the state
  \<open>(groupStart, groupEnd, result)\<close>.\<close>

definition blockStep ::
  "nat \<Rightarrow> Segment \<Rightarrow> string list \<Rightarrow> nat \<times> nat \<times> Segment list \<Rightarrow> Segment
     \<Rightarrow> nat \<times> nat \<times> Segment list" where
  "blockStep maxChunkTokens seg lines st block =
     (case st of (groupStart, groupEnd, result) \<Rightarrow>
        (let extendedTokens = estimateTokens lines groupStart (endLine block) in
         if extendedTokens > maxChunkTokens then
           (groupEnd + 1, endLine block,
            result @ [Segment groupStart groupEnd (nodeType seg @ ''_block'')
                        (symbolName seg) [] None])
         else (groupStart, endLine block, result)))"

definition splitByBlocks ::
  "nat \<Rightarrow> nat \<Rightarrow> Segment \<Rightarrow> Segment list \<Rightarrow> string list \<Rightarrow> Segment list \<Rightarrow> Segment list" where
  "splitByBlocks maxChunkTokens minChunkTokens seg blocks lines result =
     (case blocks of
        [] \<Rightarrow> result @ [Segment (startLine seg) (endLine seg) (nodeType seg) (symbolName seg) [] None]
      | block0 # more \<Rightarrow>
          (let firstBlockStart = startLine block0;
               headerPushed =
                 (firstBlockStart > startLine seg
                  \<and> estimateTokens lines (startLine seg) (firstBlockStart - 1) \<ge> minChunkTokens);
               result =
                 (if headerPushed
                  then result @ [Segment (startLine seg) (firstBlockStart - 1)
                                   (nodeType seg @ ''_header'') (symbolName seg) [] None]
                  else result);
               groupStart = (if headerPushed then startLine block0 else startLine seg);
               groupEnd = endLine block0
           in case foldl (blockStep maxChunkTokens seg lines) (groupStart, groupEnd, result) more of
                (groupStart, groupEnd, result) \<Rightarrow>
                  result @ [Segment groupStart (endLine seg) (nodeType seg @ ''_block'')
                              (symbolName seg) [] None]))"

text \<open>Every segment \<^verbatim>\<open>splitContainer\<close> appends has no children, so the recursion of
  \<^verbatim>\<open>expandSegment\<close> on them ends after one more level.\<close>

lemma containerStep_children:
  assumes "\<forall>s \<in> set (snd st). children s = []"
  shows "\<forall>s \<in> set (snd (containerStep m seg lines st child)). children s = []"
  using assms unfolding containerStep_def by (cases st) (auto simp: Let_def)

lemma containerLoop_children:
  assumes "\<forall>s \<in> set (snd st). children s = []"
  shows "\<forall>s \<in> set (snd (foldl (containerStep m seg lines) st cs)). children s = []"
  using assms
proof (induction cs arbitrary: st)
  case Nil
  then show ?case by simp
next
  case (Cons c cs)
  show ?case
    unfolding foldl_Cons
    by (rule Cons.IH) (rule containerStep_children[OF Cons.prems])
qed

lemma set_last_endLine_children:
  assumes "result \<noteq> []" "\<forall>s \<in> set result. children s = []"
  shows "\<forall>s \<in> set (set_last_endLine result v). children s = []"
proof -
  from assms(1) have "last result \<in> set result" by simp
  with assms(2) have "children (last result) = []" by blast
  moreover have "set (butlast result) \<subseteq> set result" by (auto dest: in_set_butlastD)
  ultimately show ?thesis
    using assms(2) unfolding set_last_endLine_def
    by (cases "last result") auto
qed

lemma splitContainer_children:
  "\<forall>s \<in> set (splitContainer m seg lines []). children s = []"
proof -
  obtain lastEnd result where st:
    "foldl (containerStep m seg lines) (startLine seg, []) (children seg) = (lastEnd, result)"
    by (cases "foldl (containerStep m seg lines) (startLine seg, []) (children seg)")
  have r: "\<forall>s \<in> set result. children s = []"
    using containerLoop_children[of "(startLine seg, [])" m seg lines "children seg"] st by simp
  show ?thesis
    unfolding splitContainer_def st
    using r set_last_endLine_children[of result "endLine seg"]
    by (auto simp: Let_def)
qed

function expandSegment ::
  "nat \<Rightarrow> nat \<Rightarrow> Segment \<Rightarrow> string list \<Rightarrow> Segment list \<Rightarrow> Segment list" where
  "expandSegment maxChunkTokens minChunkTokens seg lines result =
     (if length (children seg) > 0
         \<and> estimateTokens lines (startLine seg) (endLine seg) > maxChunkTokens
      then
        foldl (\<lambda>result sub. expandSegment maxChunkTokens minChunkTokens sub lines result)
          result (splitContainer minChunkTokens seg lines [])
      else if (case functionBlocks seg of Some blocks \<Rightarrow> length blocks > 1 | None \<Rightarrow> False)
              \<and> estimateTokens lines (startLine seg) (endLine seg) > maxChunkTokens
      then
        splitByBlocks maxChunkTokens minChunkTokens seg
          (case functionBlocks seg of Some blocks \<Rightarrow> blocks | None \<Rightarrow> []) lines result
      else if estimateTokens lines (startLine seg) (endLine seg) > maxChunkTokens
      then splitByLineCount maxChunkTokens seg lines result
      else result @ [Segment (startLine seg) (endLine seg) (nodeType seg) (symbolName seg) [] None])"
  by pat_completeness auto
termination
proof (relation "measure (\<lambda>(maxT, minT, seg, lines, result). length (children seg))", simp, goal_cases)
  case (1 maxChunkTokens minChunkTokens seg lines result x xa)
  then show ?case using splitContainer_children[of minChunkTokens seg lines] by auto
qed

declare expandSegment.simps [simp del]

definition expandOversizedSegments ::
  "nat \<Rightarrow> nat \<Rightarrow> Segment list \<Rightarrow> string list \<Rightarrow> Segment list" where
  "expandOversizedSegments maxChunkTokens minChunkTokens segments lines =
     foldl (\<lambda>result seg. expandSegment maxChunkTokens minChunkTokens seg lines result) [] segments"

section \<open>The chunker: merging small segments\<close>

text \<open>\<^verbatim>\<open>mergeSmallSegments\<close>. The loop state is \<open>(result, current, currentTokens)\<close>; the
  copy \<^verbatim>\<open>{ ...segments[i] }\<close> keeps every field.\<close>

definition mergeStep ::
  "nat \<Rightarrow> string list \<Rightarrow> Segment list \<times> Segment \<times> nat \<Rightarrow> Segment
     \<Rightarrow> Segment list \<times> Segment \<times> nat" where
  "mergeStep minChunkTokens lines st next =
     (case st of (result, current, currentTokens) \<Rightarrow>
        (let nextTokens = estimateTokens lines (startLine next) (endLine next) in
         if currentTokens < minChunkTokens \<or> nextTokens < minChunkTokens then
           (let current =
              (if currentTokens < nextTokens
               then Segment (startLine current) (endLine next) (nodeType next) (symbolName next)
                      (children current) (functionBlocks current)
               else Segment (startLine current) (endLine next) (nodeType current)
                      (symbolName current) (children current) (functionBlocks current))
            in (result, current, estimateTokens lines (startLine current) (endLine current)))
         else (result @ [current], next, nextTokens)))"

definition mergeSmallSegments :: "nat \<Rightarrow> Segment list \<Rightarrow> string list \<Rightarrow> Segment list" where
  "mergeSmallSegments minChunkTokens segments lines =
     (case segments of
        [] \<Rightarrow> []
      | first # more \<Rightarrow>
          (case foldl (mergeStep minChunkTokens lines)
                  ([], first, estimateTokens lines (startLine first) (endLine first)) more of
             (result, current, currentTokens) \<Rightarrow> result @ [current]))"

section \<open>The chunker: chunks\<close>

text \<open>\<^verbatim>\<open>content.split('\n')\<close>, \<^verbatim>\<open>lines.slice(a, b)\<close> for non-negative indices, and
  \<^verbatim>\<open>parts.join('\n')\<close>.\<close>

fun split_on :: "char \<Rightarrow> string \<Rightarrow> string list" where
  "split_on sep [] = [[]]"
| "split_on sep (c # cs) =
     (if c = sep then [] # split_on sep cs
      else (case split_on sep cs of l # ls \<Rightarrow> (c # l) # ls | [] \<Rightarrow> [[c]]))"

definition slice :: "'a list \<Rightarrow> nat \<Rightarrow> nat \<Rightarrow> 'a list" where
  "slice xs a b = take (b - a) (drop a xs)"

fun join_with :: "string \<Rightarrow> string list \<Rightarrow> string" where
  "join_with sep [] = []"
| "join_with sep [x] = x"
| "join_with sep (x # y # ys) = x @ sep @ join_with sep (y # ys)"

definition endsWith :: "string \<Rightarrow> string \<Rightarrow> bool" where
  "endsWith s suffix \<longleftrightarrow> length suffix \<le> length s \<and> drop (length s - length suffix) s = suffix"

record CodeChunk =
  chunkId :: string
  filePath :: string
  startLine :: nat
  endLine :: nat
  content :: string
  contentHash :: string
  nodeType :: string
  symbolName :: "string option"

datatype language = TypeScript | TSX

text \<open>\<^verbatim>\<open>ASTChunker.chunkFile\<close>. The SHA-256 hex digest \<open>sha256\<close> and the parser \<open>parse\<close>
  (for the grammar chosen by the file extension) are parameters, as are the two
  constructor arguments.\<close>

definition toChunk :: "(string \<Rightarrow> string) \<Rightarrow> string \<Rightarrow> string list \<Rightarrow> Segment \<Rightarrow> CodeChunk" where
  "toChunk sha256 fpath lines seg =
     (let chunkContent = join_with ''\<newline>'' (slice lines (Segment.startLine seg) (Segment.endLine seg + 1));
          hash = sha256 chunkContent
      in \<lparr> chunkId = hash, filePath = fpath,
           startLine = Segment.startLine seg + 1, endLine = Segment.endLine seg + 1,
           content = chunkContent, contentHash = hash,
           nodeType = Segment.nodeType seg, symbolName = Segment.symbolName seg \<rparr>)"

definition chunkFile ::
  "(string \<Rightarrow> string) \<Rightarrow> (language \<Rightarrow> string \<Rightarrow> SyntaxNode) \<Rightarrow> nat \<Rightarrow> nat
     \<Rightarrow> string \<Rightarrow> string \<Rightarrow> CodeChunk list" where
  "chunkFile sha256 parse maxChunkTokens minChunkTokens fpath text =
     (let rootNode = parse (if endsWith fpath ''.tsx'' then TSX else TypeScript) text;
          lines = split_on CHR ''\<newline>'' text;
          rawSegments = extractTopLevelSegments rootNode;
          expandedSegments = expandOversizedSegments maxChunkTokens minChunkTokens rawSegments lines;
          mergedSegments = mergeSmallSegments minChunkTokens expandedSegments lines
      in map (toChunk sha256 fpath lines) mergedSegments)"

section \<open>Line ranges of segments\<close>

text \<open>Two segments overlap when their inclusive line ranges share a line.\<close>

definition overlaps :: "Segment \<Rightarrow> Segment \<Rightarrow> bool" where
  "overlaps a b \<longleftrightarrow> Segment.startLine a \<le> Segment.endLine b \<and> Segment.startLine b \<le> Segment.endLine a"

text \<open>A list of segments is laid out in increasing order when every segment is a
  non-empty range and ends before any later one starts; such segments are pairwise
  disjoint.\<close>

definition laid_out :: "Segment list \<Rightarrow> bool" where
  "laid_out segs \<longleftrightarrow>
     list_all (\<lambda>s. Segment.startLine s \<le> Segment.endLine s) segs
     \<and> sorted_wrt (\<lambda>a b. Segment.endLine a < Segment.startLine b) segs"

text \<open>The children of a container are separated from line \<open>lo\<close> on when the first starts
  at \<open>lo\<close> or later, each is a non-empty range, and each starts on a line after the one
  on which the previous child ends.\<close>

fun separated_from :: "nat \<Rightarrow> Segment list \<Rightarrow> bool" where
  "separated_from lo [] = True"
| "separated_from lo (c # cs) =
     (lo \<le> Segment.startLine c \<and> Segment.startLine c \<le> Segment.endLine c \<and> separated_from (Segment.endLine c + 1) cs)"

text \<open>The children of a container are in source order from line \<open>lo\<close> on when the first
  starts at \<open>lo\<close> or later, each is a non-empty range, and each starts no earlier than the
  line on which the previous child ends.\<close>

fun ordered_from :: "nat \<Rightarrow> Segment list \<Rightarrow> bool" where
  "ordered_from lo [] = True"
| "ordered_from lo (c # cs) =
     (lo \<le> Segment.startLine c \<and> Segment.startLine c \<le> Segment.endLine c \<and> ordered_from (Segment.endLine c) cs)"

text \<open>The header and gap segments that \<^verbatim>\<open>splitContainer\<close> emits for a container carry the
  container's node type with the suffix \<^verbatim>\<open>_header\<close>.\<close>

definition header_of :: "Segment \<Rightarrow> Segment \<Rightarrow> bool" where
  "header_of seg x \<longleftrightarrow> Segment.nodeType x = Segment.nodeType seg @ ''_header''"

text \<open>Headers are kept apart in a list of segments when every header ends before any
  later segment starts, and every segment ends before any later header starts.\<close>

definition headers_apart :: "Segment \<Rightarrow> Segment list \<Rightarrow> bool" where
  "headers_apart seg segs \<longleftrightarrow>
     sorted_wrt (\<lambda>a b. header_of seg a \<or> header_of seg b \<longrightarrow> Segment.endLine a < Segment.startLine b) segs"

text \<open>A segment contains a line when the line is in its inclusive line range.\<close>

definition contains_line :: "Segment \<Rightarrow> nat \<Rightarrow> bool" where
  "contains_line s l \<longleftrightarrow> Segment.startLine s \<le> l \<and> l \<le> Segment.endLine s"

section \<open>JavaScript maps and sets\<close>

text \<open>
  A \<^verbatim>\<open>Map\<close> is an association list in insertion order: \<^verbatim>\<open>m.set(k, v)\<close> is
  \<^const>\<open>AList.update\<close> (an existing key keeps its position, a new key is appended),
  \<^verbatim>\<open>m.get(k)\<close> is \<^const>\<open>map_of\<close>. A \<^verbatim>\<open>Set\<close> is a list without duplicates in insertion
  order. \<^verbatim>\<open>xs.sort()\<close> on strings is \<^const>\<open>sort\<close> with the lexicographic order on code
  units; \<^verbatim>\<open>xs.sort(cmp)\<close> is stable.
\<close>

definition set_add :: "'a list \<Rightarrow> 'a \<Rightarrow> 'a list" where
  "set_add s x = (if x \<in> set s then s else s @ [x])"

text \<open>\<^verbatim>\<open>new Map(entries)\<close>.\<close>

definition new_Map :: "('k \<times> 'v) list \<Rightarrow> ('k \<times> 'v) list" where
  "new_Map entries = foldl (\<lambda>m (k, v). AList.update k v m) [] entries"

text \<open>\<^verbatim>\<open>s.lastIndexOf(c)\<close> for a character \<open>c\<close>.\<close>

definition lastIndexOf :: "string \<Rightarrow> char \<Rightarrow> nat option" where
  "lastIndexOf s c =
     (let n = length (takeWhile (\<lambda>x. x \<noteq> c) (rev s)) in
      if n = length s then None else Some (length s - 1 - n))"

lemma lastIndexOf_less:
  assumes "lastIndexOf s c = Some i"
  shows "i < length s"
proof -
  have "length (takeWhile (\<lambda>x. x \<noteq> c) (rev s)) \<le> length s"
    using length_takeWhile_le[of "\<lambda>x. x \<noteq> c" "rev s"] by simp
  with assms show ?thesis
    by (auto simp: lastIndexOf_def Let_def split: if_splits)
qed

section \<open>The Merkle summary\<close>

record FileHashEntry =
  path :: string
  hash :: string

record MerkleNode =
  path :: string
  hash :: string
  isFile :: bool
  children :: "string list"

record MerkleDiff =
  added :: "string list"
  removed :: "string list"
  modified :: "string list"

definition tsParentPath :: "string \<Rightarrow> string" where
  "tsParentPath p =
     (case lastIndexOf p CHR ''/'' of Some idx \<Rightarrow> substring p 0 idx | None \<Rightarrow> ''.'')"

lemma tsParentPath_shorter:
  "tsParentPath p \<noteq> ''.'' \<Longrightarrow> length (tsParentPath p) < length p"
  by (auto simp: tsParentPath_def substring_def Let_def dest: lastIndexOf_less split: option.splits)

text \<open>\<^verbatim>\<open>if (!dirChildren.has(parent)) dirChildren.set(parent, new Set());
  dirChildren.get(parent)!.add(current)\<close>.\<close>

definition add_child ::
  "(string \<times> string list) list \<Rightarrow> string \<Rightarrow> string \<Rightarrow> (string \<times> string list) list" where
  "add_child dirChildren parent current =
     (case map_of dirChildren parent of
        None \<Rightarrow> AList.update parent [current] dirChildren
      | Some s \<Rightarrow> AList.update parent (set_add s current) dirChildren)"

text \<open>The \<^verbatim>\<open>while (true)\<close> loop that registers the parent directories of a file.\<close>

function registerParents ::
  "(string \<times> string list) list \<Rightarrow> string \<Rightarrow> (string \<times> string list) list" where
  "registerParents dirChildren current =
     (let parent = tsParentPath current;
          dirChildren = add_child dirChildren parent current
      in if parent = current \<or> parent = ''.'' then
           (if parent = ''.'' then add_child dirChildren ''.'' current else dirChildren)
         else registerParents dirChildren parent)"
  by pat_completeness auto
termination
  by (relation "measure (\<lambda>(dirChildren, current). length current)")
     (auto dest: tsParentPath_shorter)

declare registerParents.simps [simp del]

definition leafNode :: "FileHashEntry \<Rightarrow> MerkleNode" where
  "leafNode fh =
     \<lparr> path = FileHashEntry.path fh, hash = FileHashEntry.hash fh, isFile = True, children = [] \<rparr>"

definition insertLeaf ::
  "(string \<times> MerkleNode) list \<times> (string \<times> string list) list \<Rightarrow> FileHashEntry
     \<Rightarrow> (string \<times> MerkleNode) list \<times> (string \<times> string list) list" where
  "insertLeaf st fh =
     (case st of (nodes, dirChildren) \<Rightarrow>
        (AList.update (FileHashEntry.path fh) (leafNode fh) nodes,
         registerParents dirChildren (FileHashEntry.path fh)))"

text \<open>\<^verbatim>\<open>p.split('/').length\<close>.\<close>

definition depth :: "string \<Rightarrow> nat" where
  "depth p = length (split_on CHR ''/'' p)"

text \<open>The directory paths, deepest first: a stable sort with the comparator
  \<^verbatim>\<open>(a, b) => b.split('/').length - a.split('/').length\<close>.\<close>

definition deepest_first :: "string list \<Rightarrow> string list" where
  "deepest_first ps = sort_key (\<lambda>p. - int (depth p)) ps"

definition child_hash :: "(string \<times> MerkleNode) list \<Rightarrow> string \<Rightarrow> string" where
  "child_hash nodes c = (case map_of nodes c of Some n \<Rightarrow> hash n | None \<Rightarrow> '''')"

definition dirStep ::
  "(string \<Rightarrow> string) \<Rightarrow> (string \<times> string list) list \<Rightarrow> (string \<times> MerkleNode) list \<Rightarrow> string
     \<Rightarrow> (string \<times> MerkleNode) list" where
  "dirStep sha256 dirChildren nodes dirPath =
     (let children = sort (case map_of dirChildren dirPath of Some s \<Rightarrow> s | None \<Rightarrow> []);
          childHashes = concat (sort (map (child_hash nodes) children));
          h = sha256 childHashes
      in AList.update dirPath
           \<lparr> path = dirPath, hash = h, isFile = False, children = children \<rparr> nodes)"

definition tsBuildMerkleTree :: "(string \<Rightarrow> string) \<Rightarrow> FileHashEntry list \<Rightarrow> MerkleNode list" where
  "tsBuildMerkleTree sha256 fileHashes =
     (case foldl insertLeaf ([], []) fileHashes of
        (nodes, dirChildren) \<Rightarrow>
          map snd (foldl (dirStep sha256 dirChildren) nodes (deepest_first (map fst dirChildren))))"

definition fileMap :: "MerkleNode list \<Rightarrow> (string \<times> string) list" where
  "fileMap nodes = new_Map (map (\<lambda>n. (path n, hash n)) (filter isFile nodes))"

definition tsDiffMerkleTrees :: "MerkleNode list \<Rightarrow> MerkleNode list \<Rightarrow> MerkleDiff" where
  "tsDiffMerkleTrees oldNodes newNodes =
     (let oldFiles = fileMap oldNodes;
          newFiles = fileMap newNodes
      in \<lparr> added = map fst (filter (\<lambda>(p, h). map_of oldFiles p = None) newFiles),
           removed = filter (\<lambda>p. map_of newFiles p = None) (map fst oldFiles),
           modified =
             map fst (filter (\<lambda>(p, h). case map_of oldFiles p of
                                          None \<Rightarrow> False | Some h' \<Rightarrow> h' \<noteq> h) newFiles) \<rparr>)"

section \<open>Reading a Merkle summary\<close>

text \<open>The hash a summary holds for a path: that of its first node with the path, and
  the empty string when it has none.\<close>

definition nodeHash :: "MerkleNode list \<Rightarrow> string \<Rightarrow> string" where
  "nodeHash nodes p = (case find (\<lambda>n. path n = p) nodes of Some n \<Rightarrow> hash n | None \<Rightarrow> '''')"

text \<open>The directories the builder registers for a file path: its parent, the parent's
  parent, and so on up to the root \<open>.\<close>.\<close>

function ancestors :: "string \<Rightarrow> string list" where
  "ancestors current =
     (let parent = tsParentPath current in
      if parent = current \<or> parent = ''.'' then [parent] else parent # ancestors parent)"
  by pat_completeness auto
termination
  by (relation "measure length") (auto dest: tsParentPath_shorter)

declare ancestors.simps [simp del]

text \<open>The files of a directory tree: no path occurs twice, and no file's path is a
  directory of the tree.\<close>

definition file_tree :: "FileHashEntry list \<Rightarrow> bool" where
  "file_tree fileHashes \<longleftrightarrow>
     distinct (map FileHashEntry.path fileHashes)
     \<and> list_all (\<lambda>f. list_all (\<lambda>g. FileHashEntry.path f \<notin> set (ancestors (FileHashEntry.path g)))
                        fileHashes) fileHashes"

text \<open>The directory hash as the specification words it: the digest of the children's
  hashes concatenated in the order of the children's paths.\<close>

definition spec_dir_hash :: "(string \<Rightarrow> string) \<Rightarrow> MerkleNode list \<Rightarrow> MerkleNode \<Rightarrow> string" where
  "spec_dir_hash sha256 nodes n = sha256 (concat (map (nodeHash nodes) (sort (children n))))"

text \<open>The paths of a file set: every file, and every directory above a file up to the
  root.\<close>

definition tree_paths :: "FileHashEntry list \<Rightarrow> string list" where
  "tree_paths fileHashes =
     concat (map (\<lambda>f. FileHashEntry.path f # ancestors (FileHashEntry.path f)) fileHashes)"

text \<open>The direct children of a directory in a file set: the paths of the file set whose
  parent path is the directory, each once, in alphabetical order.\<close>

definition direct_children :: "FileHashEntry list \<Rightarrow> string \<Rightarrow> string list" where
  "direct_children fileHashes d =
     sort (remdups (filter (\<lambda>c. tsParentPath c = d) (tree_paths fileHashes)))"

section \<open>Invariants of the Merkle builder\<close>

text \<open>The directory map has one entry per directory, and every registered child has the
  directory as its parent path.\<close>

definition dc_ok :: "(string \<times> string list) list \<Rightarrow> bool" where
  "dc_ok dc \<longleftrightarrow>
     distinct (map fst dc)
     \<and> (\<forall>d cs. map_of dc d = Some cs \<longrightarrow> (\<forall>c \<in> set cs. tsParentPath c = d))"

text \<open>The node map has one entry per path, and every node is stored under its path.\<close>

definition nodes_ok :: "(string \<times> MerkleNode) list \<Rightarrow> bool" where
  "nodes_ok nodes \<longleftrightarrow> distinct (map fst nodes) \<and> (\<forall>(k, n) \<in> set nodes. path n = k)"

text \<open>After the first loop every node is a file node.\<close>

definition leaves_ok :: "(string \<times> MerkleNode) list \<times> (string \<times> string list) list \<Rightarrow> bool" where
  "leaves_ok st \<longleftrightarrow>
     nodes_ok (fst st) \<and> dc_ok (snd st) \<and> (\<forall>(k, n) \<in> set (fst st). isFile n)"

text \<open>A file hash entry as a pair of the path and the hash.\<close>

abbreviation entry :: "FileHashEntry \<Rightarrow> string \<times> string" where
  "entry f \<equiv> (FileHashEntry.path f, FileHashEntry.hash f)"

text \<open>The children registered for a directory.\<close>

definition registered :: "(string \<times> string list) list \<Rightarrow> string \<Rightarrow> string list" where
  "registered dc d = (case map_of dc d of Some s \<Rightarrow> s | None \<Rightarrow> [])"

text \<open>The values of \<^verbatim>\<open>current\<close> in the loop that registers the parent directories of a
  path.\<close>

function chain :: "string \<Rightarrow> string list" where
  "chain current =
     (let parent = tsParentPath current in
      if parent = current \<or> parent = ''.'' then [current] else current # chain parent)"
  by pat_completeness auto
termination
  by (relation "measure length") (auto dest: tsParentPath_shorter)

declare chain.simps [simp del]

section \<open>The dataset loader\<close>

text \<open>
  A row of a JSONL file is a JSON object, taken here as \<^verbatim>\<open>JSON.parse\<close> in \<^verbatim>\<open>loadJsonl\<close>
  returns it, with scalar values. \<open>None\<close> is \<^verbatim>\<open>undefined\<close> (a missing key). A number is
  an IEEE double: a finite one is given by its rational value, and \<open>-0\<close> is not told
  from \<open>0\<close> (the loader only compares numbers with \<open>0\<close>, tests them for truthiness and
  prints them). The two conversions between strings and numbers, \<^verbatim>\<open>StringToNumber\<close> behind
  \<^verbatim>\<open>Number(s)\<close> and \<^verbatim>\<open>Number::toString\<close> behind \<^verbatim>\<open>String(n)\<close>, are the runtime's and are
  parameters of the model.
\<close>

datatype js_number = Finite rat | NaN | Infinity | NegInfinity

datatype json = JNull | JBool bool | JNum js_number | JStr string

type_synonym row = "(string \<times> json) list"

record js_runtime =
  StringToNumber :: "string \<Rightarrow> js_number"
  NumberToString :: "js_number \<Rightarrow> string"

definition field :: "row \<Rightarrow> string \<Rightarrow> json option" where
  "field r k = map_of r k"

text \<open>\<^verbatim>\<open>a ?? b\<close> takes \<open>b\<close> when \<open>a\<close> is \<^verbatim>\<open>undefined\<close> or \<^verbatim>\<open>null\<close>.\<close>

definition nullish :: "json option \<Rightarrow> json option \<Rightarrow> json option" where
  "nullish a b = (case a of None \<Rightarrow> b | Some JNull \<Rightarrow> b | Some v \<Rightarrow> Some v)"

text \<open>\<^verbatim>\<open>String(v)\<close>.\<close>

definition js_String :: "js_runtime \<Rightarrow> json option \<Rightarrow> string" where
  "js_String rt v =
     (case v of
        None \<Rightarrow> ''undefined''
      | Some JNull \<Rightarrow> ''null''
      | Some (JBool b) \<Rightarrow> (if b then ''true'' else ''false'')
      | Some (JNum n) \<Rightarrow> NumberToString rt n
      | Some (JStr s) \<Rightarrow> s)"

text \<open>\<^verbatim>\<open>Number(v)\<close>.\<close>

definition js_Number :: "js_runtime \<Rightarrow> json option \<Rightarrow> js_number" where
  "js_Number rt v =
     (case v of
        None \<Rightarrow> NaN
      | Some JNull \<Rightarrow> Finite 0
      | Some (JBool b) \<Rightarrow> (if b then Finite 1 else Finite 0)
      | Some (JNum n) \<Rightarrow> n
      | Some (JStr s) \<Rightarrow> StringToNumber rt s)"

text \<open>JavaScript truthiness of a field value.\<close>

definition truthy_json :: "json option \<Rightarrow> bool" where
  "truthy_json v =
     (case v of
        None \<Rightarrow> False
      | Some JNull \<Rightarrow> False
      | Some (JBool b) \<Rightarrow> b
      | Some (JNum n) \<Rightarrow> n \<noteq> Finite 0 \<and> n \<noteq> NaN
      | Some (JStr s) \<Rightarrow> s \<noteq> [])"

record CorpusEntry =
  id :: string
  text_of :: string
  title :: "string option"

record BenchmarkQuery =
  id :: string
  text_of :: string

record BenchmarkDataset =
  name :: string
  queries :: "BenchmarkQuery list"
  corpus :: "CorpusEntry list"
  qrels :: "(string \<times> (string \<times> js_number) list) list"

record LoadOptions =
  maxCorpus :: "nat option"
  maxQueries :: "nat option"

text \<open>\<^verbatim>\<open>score > 0\<close>, which is false of \<^verbatim>\<open>NaN\<close>.\<close>

definition positive :: "js_number \<Rightarrow> bool" where
  "positive score = (case score of Finite q \<Rightarrow> q > 0 | Infinity \<Rightarrow> True | _ \<Rightarrow> False)"

text \<open>The loop over the qrel rows: the state is the map \<open>qrels\<close> and the set
  \<open>relevantCorpusIds\<close>.\<close>

definition qrelStep ::
  "js_runtime \<Rightarrow> (string \<times> (string \<times> js_number) list) list \<times> string list \<Rightarrow> row
     \<Rightarrow> (string \<times> (string \<times> js_number) list) list \<times> string list" where
  "qrelStep rt st r =
     (case st of (qrelMap, relevantCorpusIds) \<Rightarrow>
        (let qid = js_String rt (nullish (nullish (field r ''query_id'') (field r ''query-id''))
                                 (Some (JStr '''')));
             cid = js_String rt (nullish (nullish (field r ''corpus_id'') (field r ''corpus-id''))
                                 (Some (JStr '''')));
             score = js_Number rt (nullish (field r ''score'') (Some (JNum (Finite 1))));
             qrelMap = (if map_of qrelMap qid = None then AList.update qid [] qrelMap else qrelMap);
             qrelMap = AList.update qid
                       (AList.update cid score (case map_of qrelMap qid of Some m \<Rightarrow> m | None \<Rightarrow> []))
                       qrelMap
         in (qrelMap, if positive score then set_add relevantCorpusIds cid else relevantCorpusIds)))"

definition corpusEntry :: "js_runtime \<Rightarrow> row \<Rightarrow> CorpusEntry" where
  "corpusEntry rt r =
     \<lparr> CorpusEntry.id = js_String rt (field r ''_id''),
       CorpusEntry.text_of = js_String rt (nullish (field r ''text'') (Some (JStr ''''))),
       title = (if truthy_json (field r ''title'') then Some (js_String rt (field r ''title''))
                else None) \<rparr>"

text \<open>The two loops that build the capped corpus: first every relevant document, then
  other documents until the map holds \<open>maxCorpus\<close> entries (\<^verbatim>\<open>break\<close> ends the loop).\<close>

definition addRelevant ::
  "js_runtime \<Rightarrow> string list \<Rightarrow> (string \<times> CorpusEntry) list \<Rightarrow> row
     \<Rightarrow> (string \<times> CorpusEntry) list" where
  "addRelevant rt relevantCorpusIds corpusMap r =
     (let i = js_String rt (field r ''_id'') in
      if i \<in> set relevantCorpusIds then AList.update i (corpusEntry rt r) corpusMap else corpusMap)"

fun fillUp ::
  "js_runtime \<Rightarrow> nat \<Rightarrow> (string \<times> CorpusEntry) list \<Rightarrow> row list
     \<Rightarrow> (string \<times> CorpusEntry) list" where
  "fillUp rt maxC corpusMap [] = corpusMap"
| "fillUp rt maxC corpusMap (r # rest) =
     (if length corpusMap \<ge> maxC then corpusMap
      else
        (let i = js_String rt (field r ''_id'') in
         fillUp rt maxC
           (if map_of corpusMap i = None then AList.update i (corpusEntry rt r) corpusMap
            else corpusMap)
           rest))"

definition queryOf :: "js_runtime \<Rightarrow> row \<Rightarrow> BenchmarkQuery" where
  "queryOf rt r =
     \<lparr> BenchmarkQuery.id = js_String rt (field r ''_id''),
       BenchmarkQuery.text_of = js_String rt (nullish (field r ''text'') (Some (JStr ''''))) \<rparr>"

text \<open>The filter on the queries: a query is kept when it has qrels and one of the corpus
  ids of its qrels is in the corpus.\<close>

definition keepQuery ::
  "(string \<times> (string \<times> js_number) list) list \<Rightarrow> string list \<Rightarrow> BenchmarkQuery \<Rightarrow> bool" where
  "keepQuery qrelMap corpusIds q =
     (case map_of qrelMap (BenchmarkQuery.id q) of
        None \<Rightarrow> False
      | Some rels \<Rightarrow> list_ex (\<lambda>cid. cid \<in> set corpusIds) (map fst rels))"

text \<open>\<^verbatim>\<open>DatasetLoader.load\<close>, from the rows of the three cached files on.\<close>

definition load ::
  "js_runtime \<Rightarrow> string \<Rightarrow> LoadOptions \<Rightarrow> row list \<Rightarrow> row list \<Rightarrow> row list
     \<Rightarrow> BenchmarkDataset" where
  "load rt datasetId opts corpusRaw qrelsRaw queriesRaw =
     (case foldl (qrelStep rt) ([], []) qrelsRaw of (qrelMap, relevantCorpusIds) \<Rightarrow>
        (let corpusList =
               (case maxCorpus opts of
                  Some maxC \<Rightarrow>
                    if maxC \<noteq> 0 \<and> maxC < length corpusRaw then
                      map snd (fillUp rt maxC (foldl (addRelevant rt relevantCorpusIds) [] corpusRaw)
                                 corpusRaw)
                    else map (corpusEntry rt) corpusRaw
                | None \<Rightarrow> map (corpusEntry rt) corpusRaw);
             queryList = map (queryOf rt) queriesRaw;
             corpusIds = map CorpusEntry.id corpusList;
             filteredQueries = filter (keepQuery qrelMap corpusIds) queryList;
             finalQueries =
               (case maxQueries opts of
                  Some maxQ \<Rightarrow>
                    if maxQ \<noteq> 0 \<and> maxQ < length filteredQueries
                    then slice filteredQueries 0 maxQ else filteredQueries
                | None \<Rightarrow> filteredQueries)
         in \<lparr> name = datasetId, queries = finalQueries, corpus = corpusList, qrels = qrelMap \<rparr>))"

text \<open>What the claim asks of a query: one of its qrels has a positive score and a corpus
  id that is in the loaded corpus.\<close>

definition has_positive_in_corpus :: "BenchmarkDataset \<Rightarrow> BenchmarkQuery \<Rightarrow> bool" where
  "has_positive_in_corpus ds q =
     (case map_of (qrels ds) (BenchmarkQuery.id q) of
        None \<Rightarrow> False
      | Some rels \<Rightarrow>
          list_ex (\<lambda>(cid, score). positive score \<and> cid \<in> set (map CorpusEntry.id (corpus ds))) rels)"

text \<open>A corpus of two documents, one query, and one qrel with the score 0.\<close>

definition zero_corpus :: "row list" where
  "zero_corpus = [[(''_id'', JStr ''c1''), (''text'', JStr ''add two numbers'')],
                  [(''_id'', JStr ''c2''), (''text'', JStr ''sort an array'')]]"

definition zero_qrels :: "row list" where
  "zero_qrels = [[(''query-id'', JStr ''q1''), (''corpus-id'', JStr ''c1''), (''score'', JNum (Finite 0))]]"

definition zero_queries :: "row list" where
  "zero_queries = [[(''_id'', JStr ''q1''), (''text'', JStr ''addition'')]]"

section \<open>The vector store\<close>

text \<open>
  A thrown error is a value; a call that can throw returns \<open>Inl\<close> of it. Vectors hold
  floating-point numbers in the source; no function modelled here computes with them, and
  they are modelled as lists of rationals. \<open>None\<close> for a vector is \<^verbatim>\<open>undefined\<close>.
\<close>

datatype exn = Error string

type_synonym vector = "rat list"

record VectorPayload =
  filePath :: string
  startLine :: nat
  endLine :: nat
  contentHash :: string
  nodeType :: string
  symbolName :: "string option"

record Point =
  id :: string
  vector :: "vector option"
  payload :: VectorPayload

record VectorSearchResult =
  id :: string
  score :: rat
  payload :: VectorPayload

text \<open>
  The Qdrant client is external. Its calls are parameters: \<open>getCollection\<close>,
  \<open>createCollection\<close>, \<open>createPayloadIndex\<close>, \<open>delete\<close> with a filter on file paths,
  \<open>upsert\<close> of a batch, and \<open>search\<close>. The calls are made for one collection name,
  which is left out. What a run does to the outside is recorded as a list of events, in
  order.
\<close>

record QdrantClient =
  getCollection :: "exn + unit"
  createCollection :: "exn + unit"
  createPayloadIndex :: "exn + unit"
  clientDelete :: "string list \<Rightarrow> exn + unit"
  clientUpsert :: "Point list \<Rightarrow> exn + unit"
  clientSearch :: "vector \<Rightarrow> nat \<Rightarrow> exn + VectorSearchResult list"

datatype event =
    CreateCollection
  | CreatePayloadIndex
  | ClientDelete "string list"
  | ClientUpsert "Point list"
  | EmbedBatch "string list"
  | WriteMerkleState "MerkleNode list"
  | WriteCache "(string \<times> vector option) list"

text \<open>\<^verbatim>\<open>VectorStore.ensureCollection\<close>: the collection is taken to be missing when
  \<open>getCollection\<close> throws, and is then created with its payload index.\<close>

definition ensureCollection :: "QdrantClient \<Rightarrow> (exn + unit) \<times> event list" where
  "ensureCollection client =
     (case getCollection client of
        Inr u \<Rightarrow> (Inr (), [])
      | Inl missing \<Rightarrow>
          (case createCollection client of
             Inl e \<Rightarrow> (Inl e, [CreateCollection])
           | Inr u \<Rightarrow> (createPayloadIndex client, [CreateCollection, CreatePayloadIndex])))"

text \<open>\<^verbatim>\<open>VectorStore.deleteByFilePaths\<close>: nothing is sent for an empty list.\<close>

definition deleteByFilePaths :: "QdrantClient \<Rightarrow> string list \<Rightarrow> (exn + unit) \<times> event list" where
  "deleteByFilePaths client filePaths =
     (if length filePaths = 0 then (Inr (), [])
      else (clientDelete client filePaths, [ClientDelete filePaths]))"

text \<open>\<^verbatim>\<open>VectorStore.upsert\<close>: batches of 100, each with the ids converted by
  \<^verbatim>\<open>sha256ToUuid\<close>; the first batch that throws ends the loop.\<close>

definition toQdrantPoint :: "Point \<Rightarrow> Point" where
  "toQdrantPoint p = p\<lparr> Point.id := sha256ToUuid (Point.id p) \<rparr>"

function upsertBatches :: "QdrantClient \<Rightarrow> Point list \<Rightarrow> (exn + unit) \<times> event list" where
  "upsertBatches client points =
     (if points = [] then (Inr (), [])
      else
        (let batch = map toQdrantPoint (slice points 0 100) in
         case clientUpsert client batch of
           Inl e \<Rightarrow> (Inl e, [ClientUpsert batch])
         | Inr u \<Rightarrow>
             (case upsertBatches client (drop 100 points) of
                (r, evs) \<Rightarrow> (r, ClientUpsert batch # evs))))"
  by pat_completeness auto
termination
  by (relation "measure (\<lambda>(client, points). length points)") auto

declare upsertBatches.simps [simp del]

definition upsert :: "QdrantClient \<Rightarrow> Point list \<Rightarrow> (exn + unit) \<times> event list" where
  "upsert client points =
     (if length points = 0 then (Inr (), []) else upsertBatches client points)"

text \<open>\<^verbatim>\<open>VectorStore.search\<close>: the client's answer, or its error.\<close>

definition VectorStore_search ::
  "QdrantClient \<Rightarrow> vector \<Rightarrow> nat \<Rightarrow> exn + VectorSearchResult list" where
  "VectorStore_search client queryVector k =
     (case clientSearch client queryVector k of
        Inl e \<Rightarrow> Inl e
      | Inr results \<Rightarrow> Inr results)"

section \<open>The embedding cache\<close>

text \<open>The store of \<^verbatim>\<open>EmbeddingCache\<close>, its dirty flag, and whether its file exists. The
  timestamp of an entry is left out: it is read from the clock and only \<^verbatim>\<open>prune\<close>
  reads it.\<close>

record EmbeddingCache =
  store :: "(string \<times> vector option) list"
  dirty :: bool
  fileExists :: bool

text \<open>\<^verbatim>\<open>get\<close>: \<^verbatim>\<open>entry?.vector ?? null\<close>; \<open>None\<close> is \<^verbatim>\<open>null\<close>.\<close>

definition cache_get :: "EmbeddingCache \<Rightarrow> string \<Rightarrow> vector option" where
  "cache_get cache h = (case map_of (store cache) h of Some (Some v) \<Rightarrow> Some v | _ \<Rightarrow> None)"

definition cache_set :: "EmbeddingCache \<Rightarrow> string \<Rightarrow> vector option \<Rightarrow> EmbeddingCache" where
  "cache_set cache h v = cache\<lparr> store := AList.update h v (store cache), dirty := True \<rparr>"

definition cache_save :: "EmbeddingCache \<Rightarrow> EmbeddingCache \<times> event list" where
  "cache_save cache =
     (if \<not> dirty cache \<and> fileExists cache then (cache, [])
      else (cache\<lparr> dirty := False, fileExists := True \<rparr>, [WriteCache (store cache)]))"

section \<open>The indexer\<close>

record IndexStats =
  totalFiles :: nat
  totalChunks :: nat
  newChunks :: nat
  cachedChunks :: nat
  indexTimeMs :: int

text \<open>
  What \<^verbatim>\<open>Indexer.index\<close> reads from its configuration and its collaborators: the
  chunker's two limits, the native bindings (each may be missing), the fallback scanner
  (it walks the file system), the file system's \<^verbatim>\<open>readFileSync\<close>, \<^verbatim>\<open>path.resolve\<close> and
  \<^verbatim>\<open>path.relative\<close>, the digest, the parser, the saved Merkle state (\<open>None\<close> when the
  file is missing or does not parse), the embedder's \<^verbatim>\<open>embedBatch\<close>, the Qdrant
  client, and the two readings of the clock. The progress callback is left out: it only
  receives messages.
\<close>

record IndexerEnv =
  rootDir :: string
  extensions :: "string list"
  maxChunkTokens :: nat
  minChunkTokens :: nat
  nativeScanDirectory :: "(string \<Rightarrow> string list \<Rightarrow> string list) option"
  nativeSha256HashFiles :: "(string list \<Rightarrow> FileHashEntry list) option"
  nativeBuildMerkleTree :: "(FileHashEntry list \<Rightarrow> MerkleNode list) option"
  nativeDiffMerkleTrees :: "(MerkleNode list \<Rightarrow> MerkleNode list \<Rightarrow> MerkleDiff) option"
  tsScanDirectory :: "string \<Rightarrow> string list \<Rightarrow> string list"
  readFileSync :: "string \<Rightarrow> exn + string"
  pathResolve :: "string \<Rightarrow> string \<Rightarrow> string"
  pathRelative :: "string \<Rightarrow> string \<Rightarrow> string"
  sha256 :: "string \<Rightarrow> string"
  parser :: "language \<Rightarrow> string \<Rightarrow> SyntaxNode"
  merkleStateFile :: "MerkleNode list option"
  embedBatch :: "string list \<Rightarrow> exn + vector list"
  client :: QdrantClient
  startTime :: int
  endTime :: int

definition scanFiles :: "IndexerEnv \<Rightarrow> string list" where
  "scanFiles env =
     (case nativeScanDirectory env of
        Some scanDirectory \<Rightarrow> scanDirectory (rootDir env) (extensions env)
      | None \<Rightarrow> tsScanDirectory env (rootDir env) (extensions env))"

text \<open>\<^verbatim>\<open>tsSha256HashFiles\<close>: a file that cannot be read is left out.\<close>

definition tsSha256HashFiles :: "IndexerEnv \<Rightarrow> string list \<Rightarrow> FileHashEntry list" where
  "tsSha256HashFiles env filePaths =
     concat (map (\<lambda>p. case readFileSync env p of
                         Inl e \<Rightarrow> []
                       | Inr bytes \<Rightarrow>
                           [\<lparr> FileHashEntry.path = p, FileHashEntry.hash = sha256 env bytes \<rparr>])
               filePaths)"

definition hashFiles :: "IndexerEnv \<Rightarrow> string list \<Rightarrow> FileHashEntry list" where
  "hashFiles env filePaths =
     map (\<lambda>h. \<lparr> FileHashEntry.path = pathRelative env (rootDir env) (FileHashEntry.path h),
                FileHashEntry.hash = FileHashEntry.hash h \<rparr>)
       (case nativeSha256HashFiles env of
          Some sha256HashFiles \<Rightarrow> sha256HashFiles filePaths
        | None \<Rightarrow> tsSha256HashFiles env filePaths)"

definition buildMerkle :: "IndexerEnv \<Rightarrow> FileHashEntry list \<Rightarrow> MerkleNode list" where
  "buildMerkle env fileHashes =
     (case nativeBuildMerkleTree env of
        Some buildMerkleTree \<Rightarrow> buildMerkleTree fileHashes
      | None \<Rightarrow> tsBuildMerkleTree (sha256 env) fileHashes)"

definition diffMerkle :: "IndexerEnv \<Rightarrow> MerkleNode list \<Rightarrow> MerkleNode list \<Rightarrow> MerkleDiff" where
  "diffMerkle env oldNodes newNodes =
     (case nativeDiffMerkleTrees env of
        Some diffMerkleTrees \<Rightarrow> diffMerkleTrees oldNodes newNodes
      | None \<Rightarrow> tsDiffMerkleTrees oldNodes newNodes)"

definition loadMerkleState :: "IndexerEnv \<Rightarrow> MerkleNode list" where
  "loadMerkleState env = (case merkleStateFile env of Some nodes \<Rightarrow> nodes | None \<Rightarrow> [])"

text \<open>Step 6: a file that cannot be read is reported and skipped.\<close>

definition chunkFiles :: "IndexerEnv \<Rightarrow> string list \<Rightarrow> CodeChunk list" where
  "chunkFiles env filesToProcess =
     concat (map (\<lambda>fp. case readFileSync env fp of
                          Inl e \<Rightarrow> []
                        | Inr text \<Rightarrow>
                            chunkFile (sha256 env) (parser env) (maxChunkTokens env)
                              (minChunkTokens env) (pathRelative env (rootDir env) fp) text)
               filesToProcess)"

text \<open>Step 7: the chunks whose hash the cache holds, with their vectors, and the others.\<close>

definition cachedResults :: "EmbeddingCache \<Rightarrow> CodeChunk list \<Rightarrow> (CodeChunk \<times> vector) list" where
  "cachedResults cache allChunks =
     concat (map (\<lambda>chunk. case cache_get cache (CodeChunk.contentHash chunk) of
                             Some v \<Rightarrow> [(chunk, v)] | None \<Rightarrow> [])
               allChunks)"

definition uncachedChunks :: "EmbeddingCache \<Rightarrow> CodeChunk list \<Rightarrow> CodeChunk list" where
  "uncachedChunks cache allChunks =
     filter (\<lambda>chunk. cache_get cache (CodeChunk.contentHash chunk) = None) allChunks"

definition payloadOf :: "CodeChunk \<Rightarrow> VectorPayload" where
  "payloadOf chunk =
     \<lparr> filePath = CodeChunk.filePath chunk, startLine = CodeChunk.startLine chunk,
       endLine = CodeChunk.endLine chunk, contentHash = CodeChunk.contentHash chunk,
       nodeType = CodeChunk.nodeType chunk, symbolName = CodeChunk.symbolName chunk \<rparr>"

text \<open>\<^verbatim>\<open>newEmbeddings[i]\<close>: \<^verbatim>\<open>undefined\<close> past the end of the array.\<close>

definition nth_opt :: "'a list \<Rightarrow> nat \<Rightarrow> 'a option" where
  "nth_opt xs i = (if i < length xs then Some (xs ! i) else None)"

definition saveEmbeddings ::
  "EmbeddingCache \<Rightarrow> CodeChunk list \<Rightarrow> vector list \<Rightarrow> EmbeddingCache" where
  "saveEmbeddings cache uncached newEmbeddings =
     foldl (\<lambda>c i. cache_set c (CodeChunk.contentHash (uncached ! i)) (nth_opt newEmbeddings i))
       cache [0 ..< length uncached]"

definition pointsOf ::
  "(CodeChunk \<times> vector) list \<Rightarrow> CodeChunk list \<Rightarrow> vector list \<Rightarrow> Point list" where
  "pointsOf cached uncached newEmbeddings =
     map (\<lambda>(chunk, v). \<lparr> Point.id = chunkId chunk, vector = Some v, payload = payloadOf chunk \<rparr>)
       cached
     @ map (\<lambda>i. \<lparr> Point.id = chunkId (uncached ! i), vector = nth_opt newEmbeddings i,
                   payload = payloadOf (uncached ! i) \<rparr>)
         [0 ..< length uncached]"

text \<open>
  \<^verbatim>\<open>Indexer.index\<close>. The result is the returned statistics or the error thrown, the
  events in order, and the cache as the run leaves it.
\<close>

definition Indexer_index ::
  "IndexerEnv \<Rightarrow> EmbeddingCache \<Rightarrow> (exn + IndexStats) \<times> event list \<times> EmbeddingCache" where
  "Indexer_index env cache =
     (let filePaths = scanFiles env;
          fileHashes = hashFiles env filePaths;
          newMerkleNodes = buildMerkle env fileHashes;
          oldMerkleNodes = loadMerkleState env;
          diff = diffMerkle env oldMerkleNodes newMerkleNodes;
          changedFiles = added diff @ modified diff;
          removedFiles = removed diff
      in
      if length changedFiles = 0 \<and> length removedFiles = 0 \<and> length oldMerkleNodes > 0 then
        (Inr \<lparr> totalFiles = length filePaths, totalChunks = 0, newChunks = 0, cachedChunks = 0,
               indexTimeMs = endTime env - startTime env \<rparr>, [], cache)
      else
        (case (if length removedFiles > 0 \<or> length (modified diff) > 0
               then deleteByFilePaths (client env) (removedFiles @ modified diff)
               else (Inr (), [])) of
           (Inl e, evs1) \<Rightarrow> (Inl e, evs1, cache)
         | (Inr u, evs1) \<Rightarrow>
             (let filesToProcess =
                    (if length oldMerkleNodes = 0 then filePaths
                     else map (pathResolve env (rootDir env)) changedFiles);
                  allChunks = chunkFiles env filesToProcess;
                  uncached = uncachedChunks cache allChunks;
                  cached = cachedResults cache allChunks
              in
              case (if length uncached > 0
                    then (case embedBatch env (map CodeChunk.content uncached) of
                            Inl e \<Rightarrow> (Inl e, [EmbedBatch (map CodeChunk.content uncached)])
                          | Inr vs \<Rightarrow> (Inr vs, [EmbedBatch (map CodeChunk.content uncached)]))
                    else (Inr [], [])) of
                (Inl e, evs2) \<Rightarrow> (Inl e, evs1 @ evs2, cache)
              | (Inr newEmbeddings, evs2) \<Rightarrow>
                  (let cache = (if length uncached > 0
                                then saveEmbeddings cache uncached newEmbeddings else cache)
                   in
                   case upsert (client env) (pointsOf cached uncached newEmbeddings) of
                     (Inl e, evs3) \<Rightarrow> (Inl e, evs1 @ evs2 @ evs3, cache)
                   | (Inr u, evs3) \<Rightarrow>
                       (case cache_save cache of
                          (cache, evs4) \<Rightarrow>
                            (Inr \<lparr> totalFiles = length filePaths,
                                   totalChunks = length allChunks,
                                   newChunks = length uncached,
                                   cachedChunks = length cached,
                                   indexTimeMs = endTime env - startTime env \<rparr>,
                             evs1 @ evs2 @ evs3 @ [WriteMerkleState newMerkleNodes] @ evs4,
                             cache))))))"

section \<open>The retriever\<close>

record SearchResult =
  filePath :: string
  startLine :: nat
  endLine :: nat
  score :: rat
  content :: string
  nodeType :: string
  symbolName :: "string option"

text \<open>What \<^verbatim>\<open>Retriever.search\<close> reads from its collaborators: the embedder's \<^verbatim>\<open>embed\<close>,
  the Qdrant client, and the file system. An error is rendered into a message by
  \<open>showError\<close>.\<close>

record RetrieverEnv =
  root :: string
  embed :: "string \<Rightarrow> exn + vector"
  store_client :: QdrantClient
  resolve :: "string \<Rightarrow> string \<Rightarrow> string"
  existsSync :: "string \<Rightarrow> bool"
  readFile :: "string \<Rightarrow> exn + string"
  showError :: "exn \<Rightarrow> string"

definition resultContent :: "RetrieverEnv \<Rightarrow> VectorPayload \<Rightarrow> string" where
  "resultContent env p =
     (let absPath = resolve env (root env) (VectorPayload.filePath p) in
      if existsSync env absPath then
        (case readFile env absPath of
           Inl err \<Rightarrow> ''[Error reading file: '' @ showError env err @ '']''
         | Inr fileContent \<Rightarrow>
             (let lines = split_on CHR ''\<newline>'' fileContent;
                  s = VectorPayload.startLine p - 1;
                  e = min (length lines) (VectorPayload.endLine p)
              in join_with ''\<newline>'' (slice lines s e)))
      else ''[File not found: '' @ VectorPayload.filePath p @ '']'')"

definition enrichResults :: "RetrieverEnv \<Rightarrow> VectorSearchResult list \<Rightarrow> SearchResult list" where
  "enrichResults env vectorResults =
     map (\<lambda>vr.
            \<lparr> filePath = VectorPayload.filePath (VectorSearchResult.payload vr),
              startLine = VectorPayload.startLine (VectorSearchResult.payload vr),
              endLine = VectorPayload.endLine (VectorSearchResult.payload vr),
              score = VectorSearchResult.score vr,
              content = resultContent env (VectorSearchResult.payload vr),
              nodeType = VectorPayload.nodeType (VectorSearchResult.payload vr),
              symbolName = VectorPayload.symbolName (VectorSearchResult.payload vr) \<rparr>)
       vectorResults"

definition Retriever_search :: "RetrieverEnv \<Rightarrow> string \<Rightarrow> nat \<Rightarrow> exn + SearchResult list" where
  "Retriever_search env query topK =
     (case embed env query of
        Inl e \<Rightarrow> Inl e
      | Inr queryVector \<Rightarrow>
          (case VectorStore_search (store_client env) queryVector topK of
             Inl e \<Rightarrow> Inl e
           | Inr vectorResults \<Rightarrow> Inr (enrichResults env vectorResults)))"

section \<open>Example inputs\<close>

text \<open>
  A class with a trailing comment after its first field, as the TypeScript grammar of
  tree-sitter parses it (rows are 0-based):
  \<^verbatim>\<open>
  class Foo {
    x = 1; // note
    y = 2;
  }
  \<close>
  The comment on row 1 is attached to the field \<open>y\<close>, whose segment therefore starts on
  row 1, the row on which the field \<open>x\<close> ends.
\<close>

definition leaf :: "string \<Rightarrow> nat \<Rightarrow> nat \<Rightarrow> string \<Rightarrow> SyntaxNode" where
  "leaf t s e tx = SyntaxNode t s e tx []"

definition class_text :: string where
  "class_text = ''class Foo {\<newline>  x = 1; // note\<newline>  y = 2;\<newline>}''"

definition class_lines :: "string list" where
  "class_lines = [''class Foo {'', ''  x = 1; // note'', ''  y = 2;'', ''}'']"

definition class_tree :: SyntaxNode where
  "class_tree = SyntaxNode ''program'' 0 3 class_text
     [(None, SyntaxNode ''class_declaration'' 0 3 class_text
        [(None, leaf ''class'' 0 0 ''class''),
         (Some ''name'', leaf ''type_identifier'' 0 0 ''Foo''),
         (Some ''body'', SyntaxNode ''class_body'' 0 3 ''{\<newline>  x = 1; // note\<newline>  y = 2;\<newline>}''
            [(None, leaf ''{'' 0 0 ''{''),
             (None, SyntaxNode ''public_field_definition'' 1 1 ''x = 1''
                [(Some ''name'', leaf ''property_identifier'' 1 1 ''x''),
                 (None, leaf ''='' 1 1 ''=''),
                 (Some ''value'', leaf ''number'' 1 1 ''1'')]),
             (None, leaf '';'' 1 1 '';''),
             (None, leaf ''comment'' 1 1 ''// note''),
             (None, SyntaxNode ''public_field_definition'' 2 2 ''y = 2''
                [(Some ''name'', leaf ''property_identifier'' 2 2 ''y''),
                 (None, leaf ''='' 2 2 ''=''),
                 (Some ''value'', leaf ''number'' 2 2 ''2'')]),
             (None, leaf '';'' 2 2 '';''),
             (None, leaf ''}'' 3 3 ''}'')])])]"

definition class_segment :: Segment where
  "class_segment =
     Segment 0 3 ''class_declaration'' (Some ''Foo'')
       [Segment 1 1 ''public_field_definition'' (Some ''x'') [] None,
        Segment 1 2 ''public_field_definition'' (Some ''y'') [] None]
       None"

text \<open>The same class with the comment on a line of its own:
  \<^verbatim>\<open>
  class Foo {
    x = 1;
    // note
    y = 2;
  }
  \<close>\<close>

definition class2_lines :: "string list" where
  "class2_lines = [''class Foo {'', ''  x = 1;'', ''  // note'', ''  y = 2;'', ''}'']"

definition class2_segment :: Segment where
  "class2_segment =
     Segment 0 4 ''class_declaration'' (Some ''Foo'')
       [Segment 1 1 ''public_field_definition'' (Some ''x'') [] None,
        Segment 2 3 ''public_field_definition'' (Some ''y'') [] None]
       None"

text \<open>A stand-in for the digest where a concrete function is needed.\<close>

definition tag_digest :: "string \<Rightarrow> string" where
  "tag_digest s = ''sha256:'' @ s"

text \<open>File hash lists, sorted by path. In the first, the file whose path sorts first has
  the hash that sorts last.\<close>

definition fileHash :: "string \<Rightarrow> string \<Rightarrow> FileHashEntry" where
  "fileHash p h = \<lparr> FileHashEntry.path = p, FileHashEntry.hash = h \<rparr>"

definition src_files :: "FileHashEntry list" where
  "src_files = [fileHash ''src/a.ts'' ''ff'', fileHash ''src/b.ts'' ''00'']"

text \<open>An indexer over one file \<open>/r/foo.ts\<close> holding the class of the first example, with
  no native bindings, an embedder that answers every text with the same vector, and a
  Qdrant client whose calls succeed. \<open>first_run\<close> has no saved Merkle state;
  \<open>second_run\<close> has the state the first run saves.\<close>

definition ok_client :: QdrantClient where
  "ok_client =
     \<lparr> getCollection = Inr (), createCollection = Inr (), createPayloadIndex = Inr (),
       clientDelete = (\<lambda>paths. Inr ()), clientUpsert = (\<lambda>points. Inr ()),
       clientSearch = (\<lambda>v k. Inr []) \<rparr>"

definition first_run :: IndexerEnv where
  "first_run =
     \<lparr> rootDir = ''/r'', extensions = [''.ts''], maxChunkTokens = 512, minChunkTokens = 30,
       nativeScanDirectory = None, nativeSha256HashFiles = None,
       nativeBuildMerkleTree = None, nativeDiffMerkleTrees = None,
       tsScanDirectory = (\<lambda>dir exts. [''/r/foo.ts'']),
       readFileSync = (\<lambda>p. if p = ''/r/foo.ts'' then Inr class_text else Inl (Error ''ENOENT'')),
       pathResolve = (\<lambda>dir p. dir @ ''/'' @ p),
       pathRelative = (\<lambda>dir p. drop (length dir + 1) p),
       sha256 = tag_digest,
       parser = (\<lambda>lang t. class_tree),
       merkleStateFile = None,
       embedBatch = (\<lambda>texts. Inr (map (\<lambda>t. [1, 0]) texts)),
       client = ok_client,
       startTime = 1000, endTime = 1250 \<rparr>"

definition empty_cache :: EmbeddingCache where
  "empty_cache = \<lparr> store = [], dirty = False, fileExists = False \<rparr>"

definition second_run :: IndexerEnv where
  "second_run =
     first_run\<lparr> merkleStateFile :=
       Some (tsBuildMerkleTree tag_digest [fileHash ''foo.ts'' (tag_digest class_text)]) \<rparr>"

text \<open>A retriever whose collection is missing: \<open>getCollection\<close> and \<open>search\<close> throw the
  client's error for a collection that does not exist.\<close>

definition not_found :: exn where
  "not_found = Error ''Not found: Collection `codebase` doesn't exist!''"

definition missing_client :: QdrantClient where
  "missing_client =
     \<lparr> getCollection = Inl not_found, createCollection = Inr (), createPayloadIndex = Inr (),
       clientDelete = (\<lambda>paths. Inl not_found), clientUpsert = (\<lambda>points. Inl not_found),
       clientSearch = (\<lambda>v k. Inl not_found) \<rparr>"

definition missing_retriever :: RetrieverEnv where
  "missing_retriever =
     \<lparr> root = ''/r'', embed = (\<lambda>q. Inr [1, 0]), store_client = missing_client,
       resolve = (\<lambda>dir p. dir @ ''/'' @ p), existsSync = (\<lambda>p. False),
       readFile = (\<lambda>p. Inl (Error ''ENOENT'')),
       showError = (\<lambda>e. case e of Error m \<Rightarrow> ''Error: '' @ m) \<rparr>"

definition empty_retriever :: RetrieverEnv where
  "empty_retriever = missing_retriever\<lparr> store_client := ok_client \<rparr>"

chapter \<open>Properties\<close>

section \<open>Digests\<close>

text \<open>The digests are computed by rewriting with the definitions; the first one is the
  example of FIPS 180-4 for the message \<open>abc\<close>.\<close>

lemma replicate_numeral: "replicate (numeral k) x = x # replicate (pred_numeral k) x"
  by (simp add: numeral_eq_Suc)

lemmas sha_simps = add32_def rotr32_def shr32_def not32_def big_sigma0_def big_sigma1_def
  small_sigma0_def small_sigma1_def sha_ch_def sha_maj_def next_state_def compress_def
  be_bytes8_def sha_pad_def hex8_def utf8_def sha256_hex_def sha_K_def sha_H0_def hex_char_def
  blocks64.simps replicate_numeral

lemma sha256_hex_abc:
  "sha256_hex ''abc'' = ''ba7816bf8f01cfea414140de5dae2223b00361a396177a9cb410ff61f20015ad''"
  by (simp add: sha_simps)

lemma sha256_hex_00ff:
  "sha256_hex ''00ff'' = ''8909cde2f411a84e86e7a39c8a3916b7cda6a9d977778030b6f6a491401400bc''"
  by (simp add: sha_simps)

lemma sha256_hex_ff00:
  "sha256_hex ''ff00'' = ''fe7cbcaad10cd2cf801edac36b34e40eafdf90feba4c30015fa525ebcf9ab975''"
  by (simp add: sha_simps)

section \<open>Record ids are UUID-shaped\<close>

lemma split_chars_upd:
  "i < length s \<Longrightarrow> array_set (split_chars s) i [c] = split_chars (s[i := c])"
  unfolding array_set_def split_chars_def by (simp add: map_update)

lemma join_split: "join_empty (split_chars s) = s"
  unfolding join_empty_def split_chars_def by (induction s) auto

lemma array_get_split: "i < length s \<Longrightarrow> array_get (split_chars s) i = Some [s ! i]"
  unfolding array_get_def split_chars_def by simp

lemma and3_mod: "and (n::nat) 3 = n mod 4"
proof -
  have "(3::nat) = mask 2" by (simp add: mask_eq_exp_minus_1)
  then have "and n 3 = take_bit 2 n" by (simp add: take_bit_eq_mask)
  then show ?thesis by (simp add: take_bit_eq_mod)
qed

lemma variant_bits_cases: "variant_bits v \<in> {8, 9, 10, 11}"
proof -
  define n where "n = (case v of None \<Rightarrow> 0 | Some n \<Rightarrow> n)"
  have "n mod 4 < 4" by simp
  then consider "n mod 4 = 0" | "n mod 4 = 1" | "n mod 4 = 2" | "n mod 4 = 3" by linarith
  then show ?thesis
    unfolding variant_bits_def n_def[symmetric] and3_mod
    by cases simp_all
qed

lemma toString16_variant: "\<exists>c \<in> set ''89ab''. toString16 (variant_bits v) = [c]"
  using variant_bits_cases[of v] by (auto simp: toString16.simps hex_char_def)

lemma uuid_layout_eq:
  assumes "32 \<le> length h"
  shows "uuid_layout h = take 8 h @ ''-'' @ take 4 (drop 8 h) @ ''-'' @ take 4 (drop 12 h)
           @ ''-'' @ take 4 (drop 16 h) @ ''-'' @ take 12 (drop 20 h)"
  using assms unfolding uuid_layout_def substring_def Let_def
  by (simp add: min_def drop_take)

lemma uuid_layout_length: "32 \<le> length h \<Longrightarrow> length (uuid_layout h) = 36"
  by (simp add: uuid_layout_eq)

lemma uuid_layout_19: "32 \<le> length h \<Longrightarrow> uuid_layout h ! 19 = h ! 16"
  by (simp add: uuid_layout_eq nth_append)

text \<open>With at least 32 characters of input, the result is the 8-4-4-4-12 layout with
  two characters overwritten; the second is computed from the hash's character 16.\<close>

lemma sha256ToUuid_eq:
  assumes "32 \<le> length h"
  shows "\<exists>c \<in> set ''89ab''. toString16 (variant_bits (hex_digit_value (h ! 16))) = [c] \<and>
     sha256ToUuid h = (uuid_layout h)[14 := CHR ''5'', 19 := c]"
proof -
  obtain c where c: "c \<in> set ''89ab''"
      "toString16 (variant_bits (hex_digit_value (h ! 16))) = [c]"
    using toString16_variant by blast
  have len: "length (uuid_layout h) = 36" using assms by (rule uuid_layout_length)
  have "sha256ToUuid h = (uuid_layout h)[14 := CHR ''5'', 19 := c]"
    unfolding sha256ToUuid_def Let_def
    using len c(2) assms
    by (simp add: split_chars_upd array_get_split join_split parseInt16_def uuid_layout_19)
  with c show ?thesis by blast
qed

text \<open>
  Claim C8. For every SHA-256 hex content hash \<open>h\<close>, the record id has 36 characters;
  apart from indices 14 and 19 it is the first 32 hex characters of \<open>h\<close> grouped
  8-4-4-4-12 with dashes between the groups; the character at index 14 is \<open>5\<close> and the
  character at index 19 is one of \<open>8\<close>, \<open>9\<close>, \<open>a\<close>, \<open>b\<close>.
\<close>

theorem sha256ToUuid_shape:
  assumes "is_sha256_hex h"
  shows "length (sha256ToUuid h) = 36
    \<and> (\<forall>i<36. i \<noteq> 14 \<and> i \<noteq> 19 \<longrightarrow>
          sha256ToUuid h ! i =
            (take 8 h @ ''-'' @ take 4 (drop 8 h) @ ''-'' @ take 4 (drop 12 h) @ ''-''
               @ take 4 (drop 16 h) @ ''-'' @ take 12 (drop 20 h)) ! i)
    \<and> sha256ToUuid h ! 14 = CHR ''5''
    \<and> sha256ToUuid h ! 19 \<in> {CHR ''8'', CHR ''9'', CHR ''a'', CHR ''b''}"
proof -
  from assms have len: "32 \<le> length h" by (simp add: is_sha256_hex_def)
  then obtain c where c: "c \<in> set ''89ab''"
    and eq: "sha256ToUuid h = (uuid_layout h)[14 := CHR ''5'', 19 := c]"
    using sha256ToUuid_eq by blast
  have l36: "length (uuid_layout h) = 36" using len by (rule uuid_layout_length)
  have "length (sha256ToUuid h) = 36" by (simp add: eq l36)
  moreover have "\<forall>i<36. i \<noteq> 14 \<and> i \<noteq> 19 \<longrightarrow> sha256ToUuid h ! i = uuid_layout h ! i"
    by (simp add: eq)
  moreover have "sha256ToUuid h ! 14 = CHR ''5''" by (simp add: eq l36)
  moreover have "sha256ToUuid h ! 19 = c" by (simp add: eq l36)
  ultimately show ?thesis using c uuid_layout_eq[OF len] by auto
qed

theorem sha256ToUuid_shape_witness:
  "is_sha256_hex ''e3b0c44298fc1c149afbf4c8996fb92427ae41e4649b934ca495991b7852b855''
   \<and> length (sha256ToUuid ''e3b0c44298fc1c149afbf4c8996fb92427ae41e4649b934ca495991b7852b855'') = 36
   \<and> sha256ToUuid ''e3b0c44298fc1c149afbf4c8996fb92427ae41e4649b934ca495991b7852b855'' ! 14 = CHR ''5''
   \<and> sha256ToUuid ''e3b0c44298fc1c149afbf4c8996fb92427ae41e4649b934ca495991b7852b855'' ! 19
        \<in> {CHR ''8'', CHR ''9'', CHR ''a'', CHR ''b''}"
proof -
  have h: "is_sha256_hex ''e3b0c44298fc1c149afbf4c8996fb92427ae41e4649b934ca495991b7852b855''"
    by (simp add: is_sha256_hex_def)
  show ?thesis using h sha256ToUuid_shape[OF h] by blast
qed

section \<open>Chunks are slices of the file, addressed by content\<close>

lemma slice_nth: "slice xs a b = map (\<lambda>i. xs ! i) [a ..< min b (length xs)]"
proof (rule nth_equalityI)
  show "length (slice xs a b) = length (map (\<lambda>i. xs ! i) [a ..< min b (length xs)])"
    by (simp add: slice_def)
next
  fix i assume "i < length (slice xs a b)"
  then have i: "i < b - a" "i < length xs - a" by (simp_all add: slice_def)
  then have "slice xs a b ! i = xs ! (a + i)" by (simp add: slice_def)
  moreover have "map (\<lambda>i. xs ! i) [a ..< min b (length xs)] ! i = xs ! (a + i)"
  proof -
    from i have lt: "a + i < min b (length xs)" by linarith
    then have len: "i < length [a ..< min b (length xs)]" by (simp del: min_less_iff_conj)
    have "[a ..< min b (length xs)] ! i = a + i" using lt by (rule nth_upt)
    with nth_map[OF len, of "\<lambda>i. xs ! i"] show ?thesis by (simp only:)
  qed
  ultimately show "slice xs a b ! i = map (\<lambda>i. xs ! i) [a ..< min b (length xs)] ! i" by simp
qed

lemma toChunk_fields:
  "CodeChunk.content (toChunk digest fpath lines seg)
     = join_with ''\<newline>'' (slice lines (CodeChunk.startLine (toChunk digest fpath lines seg) - 1)
                          (CodeChunk.endLine (toChunk digest fpath lines seg)))
   \<and> CodeChunk.contentHash (toChunk digest fpath lines seg) = digest (CodeChunk.content (toChunk digest fpath lines seg))
   \<and> chunkId (toChunk digest fpath lines seg) = CodeChunk.contentHash (toChunk digest fpath lines seg)
   \<and> 1 \<le> CodeChunk.startLine (toChunk digest fpath lines seg)"
  by (simp add: toChunk_def Let_def)

text \<open>
  Claim C1. For every file path and content, every chunk that \<^verbatim>\<open>chunkFile\<close> produces
  has as its content the lines \<open>startLine - 1\<close> to \<open>endLine - 1\<close> (0-based, inclusive;
  \<open>startLine\<close> and \<open>endLine\<close> being the chunk's 1-based line numbers) of the content split
  at newlines, joined by newlines; its content hash is the SHA-256 digest of that content,
  and its chunk id is its content hash. The slice is the one \<^verbatim>\<open>Array.prototype.slice\<close>
  takes: lines past the end of the file are left out.
\<close>

theorem chunkFile_content_addressed:
  "\<forall>c \<in> set (chunkFile digest parse maxT minT fpath text).
     1 \<le> CodeChunk.startLine c
     \<and> CodeChunk.content c =
         join_with ''\<newline>''
           (map (\<lambda>i. split_on CHR ''\<newline>'' text ! i)
              [CodeChunk.startLine c - 1 ..<
                 min (CodeChunk.endLine c) (length (split_on CHR ''\<newline>'' text))])
     \<and> CodeChunk.contentHash c = digest (CodeChunk.content c)
     \<and> chunkId c = CodeChunk.contentHash c"
  unfolding chunkFile_def Let_def
  using toChunk_fields[of digest fpath "split_on CHR ''\<newline>'' text"]
  by (auto simp: slice_nth)

section \<open>The merge pass keeps the left label on a tie\<close>

text \<open>The cached token count of the loop is the estimate of the current segment.\<close>

lemma mergeStep_tokens:
  assumes "mergeStep minT lines (result, current, estimateTokens lines (Segment.startLine current) (Segment.endLine current)) next
             = (result', current', tokens')"
  shows "tokens' = estimateTokens lines (Segment.startLine current') (Segment.endLine current')"
  using assms unfolding mergeStep_def by (auto simp: Let_def split: if_splits)

text \<open>
  Claim C9. In one step of the merge loop, with \<open>tc\<close> the token estimate of the current
  segment and \<open>tn\<close> that of the next: when either is below \<open>minChunkTokens\<close> the two are
  merged, and the merged segment keeps the current segment's node kind and symbol name
  unless \<open>tc < tn\<close>; in particular it keeps them when \<open>tc = tn\<close>. The next segment's node
  kind and symbol name are adopted exactly when \<open>tc < tn\<close>. For a list of two segments
  this is the whole result of \<^verbatim>\<open>mergeSmallSegments\<close>.
\<close>

theorem mergeSmallSegments_tie_keeps_left:
  assumes "tc = estimateTokens lines (Segment.startLine current) (Segment.endLine current)"
    and "tn = estimateTokens lines (Segment.startLine next) (Segment.endLine next)"
    and "tc < minT \<or> tn < minT"
  shows "mergeStep minT lines (result, current, tc) next =
           (result,
            Segment (Segment.startLine current) (Segment.endLine next)
              (if tc < tn then Segment.nodeType next else Segment.nodeType current)
              (if tc < tn then Segment.symbolName next else Segment.symbolName current)
              (Segment.children current) (Segment.functionBlocks current),
            estimateTokens lines (Segment.startLine current) (Segment.endLine next))
    \<and> mergeSmallSegments minT [current, next] lines =
           [Segment (Segment.startLine current) (Segment.endLine next)
              (if tc < tn then Segment.nodeType next else Segment.nodeType current)
              (if tc < tn then Segment.symbolName next else Segment.symbolName current)
              (Segment.children current) (Segment.functionBlocks current)]"
  using assms unfolding mergeSmallSegments_def mergeStep_def
  by (auto simp: Let_def)

theorem mergeSmallSegments_tie_keeps_left_witness:
  "estimateTokens [''ab'', ''cd''] 0 0 = 1 \<and> estimateTokens [''ab'', ''cd''] 1 1 = 1
   \<and> mergeSmallSegments 2
        [Segment 0 0 ''import_statement'' (Some ''left'') [] None,
         Segment 1 1 ''function_declaration'' (Some ''right'') [] None] [''ab'', ''cd'']
      = [Segment 0 1 ''import_statement'' (Some ''left'') [] None]"
proof -
  have a: "estimateTokens [''ab'', ''cd''] 0 0 = 1" by (simp add: estimateTokens_def)
  have b: "estimateTokens [''ab'', ''cd''] 1 1 = 1" by (simp add: estimateTokens_def)
  show ?thesis
    using a b
      mergeSmallSegments_tie_keeps_left[of 1 "[''ab'', ''cd'']"
        "Segment 0 0 ''import_statement'' (Some ''left'') [] None" 1
        "Segment 1 1 ''function_declaration'' (Some ''right'') [] None" 2 "[]"]
    by simp
qed

theorem chunkFile_content_addressed_witness:
  "chunkFile tag_digest (\<lambda>l t. class_tree) 512 30 ''foo.ts'' class_text \<noteq> []
   \<and> CodeChunk.content (hd (chunkFile tag_digest (\<lambda>l t. class_tree) 512 30 ''foo.ts'' class_text))
       = class_text
   \<and> CodeChunk.startLine (hd (chunkFile tag_digest (\<lambda>l t. class_tree) 512 30 ''foo.ts'' class_text)) = 1
   \<and> CodeChunk.endLine (hd (chunkFile tag_digest (\<lambda>l t. class_tree) 512 30 ''foo.ts'' class_text)) = 4
   \<and> CodeChunk.contentHash (hd (chunkFile tag_digest (\<lambda>l t. class_tree) 512 30 ''foo.ts'' class_text))
       = tag_digest class_text
   \<and> chunkId (hd (chunkFile tag_digest (\<lambda>l t. class_tree) 512 30 ''foo.ts'' class_text))
       = tag_digest class_text"
proof -
  let ?cs = "chunkFile tag_digest (\<lambda>l t. class_tree) 512 30 ''foo.ts'' class_text"
  have ne: "?cs \<noteq> []" by code_simp
  have c: "CodeChunk.content (hd ?cs) = class_text" by code_simp
  have l: "CodeChunk.startLine (hd ?cs) = 1" "CodeChunk.endLine (hd ?cs) = 4" by code_simp+
  from ne have "hd ?cs \<in> set ?cs" by simp
  with chunkFile_content_addressed[of tag_digest "\<lambda>l t. class_tree" 512 30 "''foo.ts''" class_text]
  have "CodeChunk.contentHash (hd ?cs) = tag_digest (CodeChunk.content (hd ?cs))"
    and "chunkId (hd ?cs) = CodeChunk.contentHash (hd ?cs)"
    by blast+
  with ne c l show ?thesis by simp
qed

section \<open>Container expansion and overlapping line ranges\<close>

lemma laid_out_snoc:
  "laid_out (xs @ [s]) \<longleftrightarrow>
     laid_out xs \<and> Segment.startLine s \<le> Segment.endLine s
     \<and> (\<forall>x \<in> set xs. Segment.endLine x < Segment.startLine s)"
  unfolding laid_out_def by (auto simp: sorted_wrt_append list_all_iff)

lemma laid_out_disjoint:
  assumes "laid_out segs" "i < j" "j < length segs"
  shows "\<not> overlaps (segs ! i) (segs ! j)"
proof -
  from assms have "Segment.endLine (segs ! i) < Segment.startLine (segs ! j)"
    unfolding laid_out_def by (auto simp: sorted_wrt_iff_nth_less)
  then show ?thesis by (simp add: overlaps_def)
qed

text \<open>The loop invariant of \<^verbatim>\<open>splitContainer\<close>: what has been emitted is laid out in
  increasing order and ends before \<open>lastEnd\<close>.\<close>

lemma containerStep_inv:
  assumes "laid_out (snd st)" "\<forall>x \<in> set (snd st). Segment.endLine x < fst st"
    and "fst st \<le> Segment.startLine c" "Segment.startLine c \<le> Segment.endLine c"
  shows "laid_out (snd (containerStep m seg lines st c))
         \<and> (\<forall>x \<in> set (snd (containerStep m seg lines st c)). Segment.endLine x < Segment.endLine c + 1)
         \<and> fst (containerStep m seg lines st c) = Segment.endLine c + 1"
proof -
  obtain lastEnd result where st: "st = (lastEnd, result)" by (cases st)
  from assms st have lo: "laid_out result"
    and ends: "\<forall>x \<in> set result. Segment.endLine x < lastEnd"
    and le: "lastEnd \<le> Segment.startLine c"
    by simp_all
  show ?thesis
  proof (cases "Segment.startLine c > lastEnd")
    case True
    then show ?thesis
      using lo ends assms(4) unfolding st containerStep_def
      by (auto simp: Let_def laid_out_snoc laid_out_snoc[of "xs @ [a]" for xs a, simplified])
  next
    case False
    with le have "Segment.startLine c = lastEnd" by simp
    then show ?thesis
      using lo ends assms(4) unfolding st containerStep_def
      by (auto simp: Let_def laid_out_snoc)
  qed
qed

lemma containerLoop_inv:
  assumes "laid_out (snd st)" "\<forall>x \<in> set (snd st). Segment.endLine x < fst st"
    and "separated_from (fst st) cs"
  shows "laid_out (snd (foldl (containerStep m seg lines) st cs))
         \<and> (\<forall>x \<in> set (snd (foldl (containerStep m seg lines) st cs)).
               Segment.endLine x < fst (foldl (containerStep m seg lines) st cs))"
  using assms
proof (induction cs arbitrary: st)
  case Nil
  then show ?case by simp
next
  case (Cons c cs)
  from Cons.prems(3) have c: "fst st \<le> Segment.startLine c" "Segment.startLine c \<le> Segment.endLine c"
    and rest: "separated_from (Segment.endLine c + 1) cs"
    by simp_all
  from containerStep_inv[OF Cons.prems(1,2) c, of m seg lines]
  have "laid_out (snd (containerStep m seg lines st c))"
    and "\<forall>x \<in> set (snd (containerStep m seg lines st c)).
           Segment.endLine x < fst (containerStep m seg lines st c)"
    and "separated_from (fst (containerStep m seg lines st c)) cs"
    using rest by simp_all
  then show ?case unfolding foldl_Cons by (rule Cons.IH)
qed

lemma set_last_endLine_laid_out:
  assumes "result \<noteq> []" "laid_out result" "Segment.endLine (last result) \<le> v"
  shows "laid_out (set_last_endLine result v)"
proof -
  obtain xs x where r: "result = xs @ [x]" using assms(1) by (cases result rule: rev_cases) auto
  obtain s e t n c f where x: "x = Segment s e t n c f" by (cases x)
  from assms(2,3) show ?thesis
    unfolding r x set_last_endLine_def by (auto simp: laid_out_snoc)
qed

lemma splitContainer_laid_out:
  assumes "separated_from (Segment.startLine seg) (Segment.children seg)"
  shows "laid_out (splitContainer minT seg lines [])"
proof -
  obtain lastEnd result where st:
    "foldl (containerStep minT seg lines) (Segment.startLine seg, []) (Segment.children seg)
       = (lastEnd, result)"
    by (cases "foldl (containerStep minT seg lines) (Segment.startLine seg, []) (Segment.children seg)")
  have "laid_out (snd (Segment.startLine seg, []))" by (simp add: laid_out_def)
  from containerLoop_inv[OF this, of "Segment.children seg" minT seg lines] assms st
  have lo: "laid_out result" and ends: "\<forall>x \<in> set result. Segment.endLine x < lastEnd"
    by simp_all
  show ?thesis
  proof (cases "lastEnd \<le> Segment.endLine seg")
    case False
    then show ?thesis using lo unfolding splitContainer_def st by simp
  next
    case True
    have "laid_out (set_last_endLine result (Segment.endLine seg))" if "result \<noteq> []"
    proof -
      from that have "last result \<in> set result" by simp
      with ends True have "Segment.endLine (last result) \<le> Segment.endLine seg" by fastforce
      with that lo show ?thesis by (rule set_last_endLine_laid_out)
    qed
    then show ?thesis
      using lo ends True unfolding splitContainer_def st
      by (auto simp: Let_def laid_out_snoc)
  qed
qed

text \<open>The second loop invariant of \<^verbatim>\<open>splitContainer\<close>, for children that may touch: the
  headers emitted so far are apart from everything else and end before the line \<open>lo\<close>
  from which the remaining children start; the last segment emitted is not a header.\<close>

lemma headers_apart_snoc:
  "headers_apart seg (xs @ [s]) \<longleftrightarrow>
     headers_apart seg xs
     \<and> (\<forall>x \<in> set xs. header_of seg x \<or> header_of seg s \<longrightarrow> Segment.endLine x < Segment.startLine s)"
  unfolding headers_apart_def by (auto simp: sorted_wrt_append)

lemma headers_apart_disjoint:
  assumes "headers_apart seg segs" "i < j" "j < length segs"
    and "header_of seg (segs ! i) \<or> header_of seg (segs ! j)"
  shows "\<not> overlaps (segs ! i) (segs ! j)"
proof -
  from assms have "Segment.endLine (segs ! i) < Segment.startLine (segs ! j)"
    unfolding headers_apart_def by (auto simp: sorted_wrt_iff_nth_less)
  then show ?thesis by (simp add: overlaps_def)
qed

lemma containerStep_headers:
  assumes D: "headers_apart seg result"
    and A: "\<forall>x \<in> set result. Segment.endLine x < lastEnd"
    and H: "\<forall>x \<in> set result. header_of seg x \<longrightarrow> Segment.endLine x < lo"
    and b: "lastEnd \<le> lo + 1" "lo \<le> Segment.startLine c" "Segment.startLine c \<le> Segment.endLine c"
    and t: "\<not> header_of seg c"
  shows "headers_apart seg (snd (containerStep m seg lines (lastEnd, result) c))
         \<and> (\<forall>x \<in> set (snd (containerStep m seg lines (lastEnd, result) c)).
               Segment.endLine x < Segment.endLine c + 1)
         \<and> (\<forall>x \<in> set (snd (containerStep m seg lines (lastEnd, result) c)).
               header_of seg x \<longrightarrow> Segment.endLine x < Segment.endLine c)
         \<and> snd (containerStep m seg lines (lastEnd, result) c) \<noteq> []
         \<and> \<not> header_of seg (last (snd (containerStep m seg lines (lastEnd, result) c)))
         \<and> fst (containerStep m seg lines (lastEnd, result) c) = Segment.endLine c + 1"
proof -
  from t have t': "Segment.nodeType c \<noteq> Segment.nodeType seg @ ''_header''"
    by (simp add: header_of_def)
  show ?thesis
  proof (cases "Segment.startLine c > lastEnd")
    case True
    then show ?thesis
      using D A H b t' unfolding containerStep_def
      by (auto simp: Let_def headers_apart_snoc headers_apart_snoc[of seg "xs @ [a]" for xs a, simplified]
            header_of_def)
  next
    case False
    then have "min lastEnd (Segment.startLine c) = Segment.startLine c" by simp
    then show ?thesis
      using False D A H b t' unfolding containerStep_def
      by (auto simp: Let_def headers_apart_snoc header_of_def)
  qed
qed


lemma containerLoop_headers:
  assumes "headers_apart seg result"
    and "\<forall>x \<in> set result. Segment.endLine x < lastEnd"
    and "\<forall>x \<in> set result. header_of seg x \<longrightarrow> Segment.endLine x < lo"
    and "result \<noteq> [] \<longrightarrow> \<not> header_of seg (last result)"
    and "lastEnd \<le> lo + 1" and "ordered_from lo cs"
    and "\<forall>c \<in> set cs. \<not> header_of seg c"
  shows "headers_apart seg (snd (foldl (containerStep m seg lines) (lastEnd, result) cs))
         \<and> (\<forall>x \<in> set (snd (foldl (containerStep m seg lines) (lastEnd, result) cs)).
               Segment.endLine x < fst (foldl (containerStep m seg lines) (lastEnd, result) cs))
         \<and> (snd (foldl (containerStep m seg lines) (lastEnd, result) cs) \<noteq> [] \<longrightarrow>
               \<not> header_of seg (last (snd (foldl (containerStep m seg lines) (lastEnd, result) cs))))"
  using assms
proof (induction cs arbitrary: lastEnd result lo)
  case Nil
  then show ?case by simp
next
  case (Cons c cs)
  obtain lastEnd' result' where st: "containerStep m seg lines (lastEnd, result) c = (lastEnd', result')"
    by (cases "containerStep m seg lines (lastEnd, result) c")
  from Cons.prems(6) have c: "lo \<le> Segment.startLine c" "Segment.startLine c \<le> Segment.endLine c"
    and rest: "ordered_from (Segment.endLine c) cs"
    by simp_all
  from Cons.prems(7) have t: "\<not> header_of seg c" and ts: "\<forall>c \<in> set cs. \<not> header_of seg c"
    by simp_all
  from containerStep_headers[OF Cons.prems(1,2,3,5) c t, of m lines] st
  have 1: "headers_apart seg result'"
    and 2: "\<forall>x \<in> set result'. Segment.endLine x < lastEnd'"
    and 3: "\<forall>x \<in> set result'. header_of seg x \<longrightarrow> Segment.endLine x < Segment.endLine c"
    and 4: "result' \<noteq> [] \<longrightarrow> \<not> header_of seg (last result')"
    and 5: "lastEnd' \<le> Segment.endLine c + 1"
    by simp_all
  show ?case unfolding foldl_Cons st by (rule Cons.IH[OF 1 2 3 4 5 rest ts])
qed

lemma set_last_endLine_headers:
  assumes "result \<noteq> []" "headers_apart seg result" "\<not> header_of seg (last result)"
  shows "headers_apart seg (set_last_endLine result v)"
proof -
  obtain xs x where r: "result = xs @ [x]" using assms(1) by (cases result rule: rev_cases) auto
  obtain s e t n c f where x: "x = Segment s e t n c f" by (cases x)
  from assms(2,3) show ?thesis
    unfolding r x set_last_endLine_def by (auto simp: headers_apart_snoc header_of_def)
qed

lemma splitContainer_headers:
  assumes "ordered_from (Segment.startLine seg) (Segment.children seg)"
    and "\<forall>c \<in> set (Segment.children seg). \<not> header_of seg c"
  shows "headers_apart seg (splitContainer minT seg lines [])"
proof -
  obtain lastEnd result where st:
    "foldl (containerStep minT seg lines) (Segment.startLine seg, []) (Segment.children seg)
       = (lastEnd, result)"
    by (cases "foldl (containerStep minT seg lines) (Segment.startLine seg, []) (Segment.children seg)")
  have "headers_apart seg []" by (simp add: headers_apart_def)
  from containerLoop_headers[OF this _ _ _ _ assms, of "Segment.startLine seg" minT lines] st
  have ha: "headers_apart seg result" and ends: "\<forall>x \<in> set result. Segment.endLine x < lastEnd"
    and l: "result \<noteq> [] \<longrightarrow> \<not> header_of seg (last result)"
    by simp_all
  show ?thesis
  proof (cases "lastEnd \<le> Segment.endLine seg")
    case False
    then show ?thesis using ha unfolding splitContainer_def st by simp
  next
    case True
    have "headers_apart seg (set_last_endLine result (Segment.endLine seg))" if "result \<noteq> []"
      using that ha l by (simp add: set_last_endLine_headers)
    then show ?thesis
      using ha ends True unfolding splitContainer_def st
      by (auto simp: Let_def headers_apart_snoc header_of_def)
  qed
qed

text \<open>One step of the loop appends at most a header and then the segment of the child,
  which ends with the child and starts no later than it.\<close>

lemma containerStep_appends:
  "\<exists>pre s. snd (containerStep m seg lines (lastEnd, result) c) = result @ pre @ [s]
     \<and> fst (containerStep m seg lines (lastEnd, result) c) = Segment.endLine c + 1
     \<and> Segment.nodeType s = Segment.nodeType c \<and> Segment.symbolName s = childSymbol seg c
     \<and> Segment.startLine s \<le> Segment.startLine c \<and> Segment.endLine s = Segment.endLine c
     \<and> (Segment.startLine c \<le> lastEnd \<longrightarrow> pre = [] \<and> Segment.startLine s = Segment.startLine c)"
proof (cases "Segment.startLine c > lastEnd")
  case True
  show ?thesis
  proof (cases "estimateTokens lines lastEnd (Segment.startLine c - 1) \<ge> m")
    case g: True
    let ?h = "Segment lastEnd (Segment.startLine c - 1) (Segment.nodeType seg @ ''_header'')
                (Segment.symbolName seg) [] None"
    let ?s = "Segment (Segment.startLine c) (Segment.endLine c) (Segment.nodeType c)
                (childSymbol seg c) [] (Segment.functionBlocks c)"
    have "snd (containerStep m seg lines (lastEnd, result) c) = result @ [?h] @ [?s]"
      and "fst (containerStep m seg lines (lastEnd, result) c) = Segment.endLine c + 1"
      using True g by (simp_all add: containerStep_def Let_def)
    with True show ?thesis by (intro exI[of _ "[?h]"] exI[of _ ?s]) simp
  next
    case g: False
    let ?s = "Segment lastEnd (Segment.endLine c) (Segment.nodeType c)
                (childSymbol seg c) [] (Segment.functionBlocks c)"
    have "snd (containerStep m seg lines (lastEnd, result) c) = result @ [] @ [?s]"
      and "fst (containerStep m seg lines (lastEnd, result) c) = Segment.endLine c + 1"
      using True g by (simp_all add: containerStep_def Let_def)
    with True show ?thesis by (intro exI[of _ "[]"] exI[of _ ?s]) simp
  qed
next
  case False
  let ?s = "Segment (min lastEnd (Segment.startLine c)) (Segment.endLine c) (Segment.nodeType c)
              (childSymbol seg c) [] (Segment.functionBlocks c)"
  have "snd (containerStep m seg lines (lastEnd, result) c) = result @ [] @ [?s]"
    and "fst (containerStep m seg lines (lastEnd, result) c) = Segment.endLine c + 1"
    using False by (simp_all add: containerStep_def Let_def)
  with False show ?thesis by (intro exI[of _ "[]"] exI[of _ ?s]) simp
qed

lemma containerLoop_appends:
  "\<exists>more. snd (foldl (containerStep m seg lines) (lastEnd, result) cs) = result @ more
     \<and> (more = [] \<longrightarrow> fst (foldl (containerStep m seg lines) (lastEnd, result) cs) = lastEnd)"
proof (induction cs arbitrary: lastEnd result)
  case Nil
  then show ?case by simp
next
  case (Cons c cs)
  from containerStep_appends[of m seg lines lastEnd result c]
  obtain pre s where st: "containerStep m seg lines (lastEnd, result) c
      = (Segment.endLine c + 1, result @ pre @ [s])"
    by (metis prod.collapse)
  from Cons.IH[of "Segment.endLine c + 1" "result @ pre @ [s]"]
  obtain more where
    "snd (foldl (containerStep m seg lines) (Segment.endLine c + 1, result @ pre @ [s]) cs)
       = (result @ pre @ [s]) @ more"
    by blast
  then have "snd (foldl (containerStep m seg lines) (lastEnd, result) (c # cs))
       = result @ (pre @ [s] @ more)"
    by (simp add: st)
  then show ?case by blast
qed

lemma set_last_endLine_length: "length (set_last_endLine r v) = length r \<or> r = []"
  by (cases r rule: rev_cases) (simp_all add: set_last_endLine_def)

lemma set_last_endLine_nth:
  assumes "k < length r"
  shows "Segment.nodeType (set_last_endLine r v ! k) = Segment.nodeType (r ! k)
       \<and> Segment.symbolName (set_last_endLine r v ! k) = Segment.symbolName (r ! k)
       \<and> Segment.startLine (set_last_endLine r v ! k) = Segment.startLine (r ! k)
       \<and> (if Suc k = length r then Segment.endLine (set_last_endLine r v ! k) = v
          else Segment.endLine (set_last_endLine r v ! k) = Segment.endLine (r ! k))"
proof -
  from assms obtain xs x where r: "r = xs @ [x]" by (cases r rule: rev_cases) auto
  obtain s e t n c f where x: "x = Segment s e t n c f" by (cases x)
  from assms show ?thesis
    unfolding r x set_last_endLine_def by (auto simp: nth_append)
qed

text \<open>What \<^verbatim>\<open>splitContainer\<close> emits at a position \<open>k\<close> of the loop's result: the segment of
  the result, with a later end when it is the last one and is extended to the end of the
  container.\<close>

lemma splitContainer_nth:
  assumes "foldl (containerStep minT seg lines) (Segment.startLine seg, []) (Segment.children seg)
             = (lastEnd, result)"
    and "k < length result"
  shows "k < length (splitContainer minT seg lines [])
       \<and> Segment.nodeType (splitContainer minT seg lines [] ! k) = Segment.nodeType (result ! k)
       \<and> Segment.symbolName (splitContainer minT seg lines [] ! k) = Segment.symbolName (result ! k)
       \<and> Segment.startLine (splitContainer minT seg lines [] ! k) = Segment.startLine (result ! k)
       \<and> (Segment.endLine (splitContainer minT seg lines [] ! k) = Segment.endLine (result ! k)
          \<or> Suc k = length result \<and> lastEnd \<le> Segment.endLine (splitContainer minT seg lines [] ! k))"
proof -
  from assms(2) have ne: "result \<noteq> []" by auto
  define out where "out = splitContainer minT seg lines []"
  have out: "out = (if lastEnd \<le> Segment.endLine seg then
                      (if minT \<le> estimateTokens lines lastEnd (Segment.endLine seg)
                       then result @ [Segment lastEnd (Segment.endLine seg)
                                        (Segment.nodeType seg @ ''_footer'')
                                        (Segment.symbolName seg) [] None]
                       else set_last_endLine result (Segment.endLine seg))
                    else result)"
    unfolding out_def splitContainer_def assms(1) using ne by (simp add: Let_def)
  have "k < length out
       \<and> Segment.nodeType (out ! k) = Segment.nodeType (result ! k)
       \<and> Segment.symbolName (out ! k) = Segment.symbolName (result ! k)
       \<and> Segment.startLine (out ! k) = Segment.startLine (result ! k)
       \<and> (Segment.endLine (out ! k) = Segment.endLine (result ! k)
          \<or> Suc k = length result \<and> lastEnd \<le> Segment.endLine (out ! k))"
  proof (cases "lastEnd \<le> Segment.endLine seg")
    case False
    with assms(2) show ?thesis by (simp add: out)
  next
    case True
    show ?thesis
    proof (cases "minT \<le> estimateTokens lines lastEnd (Segment.endLine seg)")
      case f: True
      with True assms(2) show ?thesis by (simp add: out nth_append)
    next
      case f: False
      from set_last_endLine_length[of result "Segment.endLine seg"] ne
      have "length (set_last_endLine result (Segment.endLine seg)) = length result" by simp
      with set_last_endLine_nth[OF assms(2), of "Segment.endLine seg"] assms(2) True f
      show ?thesis by (auto simp: out split: if_splits)
    qed
  qed
  then show ?thesis unfolding out_def .
qed

lemma splitContainer_consecutive:
  assumes ch: "Segment.children seg = xs @ a # b # ys"
    and touch: "Segment.startLine b \<le> Segment.endLine a"
  shows "\<exists>i. i + 1 < length (splitContainer minT seg lines [])
      \<and> Segment.nodeType (splitContainer minT seg lines [] ! i) = Segment.nodeType a
      \<and> Segment.symbolName (splitContainer minT seg lines [] ! i) = childSymbol seg a
      \<and> Segment.startLine (splitContainer minT seg lines [] ! i) \<le> Segment.startLine a
      \<and> Segment.endLine (splitContainer minT seg lines [] ! i) = Segment.endLine a
      \<and> Segment.nodeType (splitContainer minT seg lines [] ! (i + 1)) = Segment.nodeType b
      \<and> Segment.symbolName (splitContainer minT seg lines [] ! (i + 1)) = childSymbol seg b
      \<and> Segment.startLine (splitContainer minT seg lines [] ! (i + 1)) = Segment.startLine b
      \<and> Segment.endLine b \<le> Segment.endLine (splitContainer minT seg lines [] ! (i + 1))"
proof -
  let ?step = "containerStep minT seg lines"
  obtain l1 r1 where s1: "foldl ?step (Segment.startLine seg, []) xs = (l1, r1)"
    by (cases "foldl ?step (Segment.startLine seg, []) xs")
  from containerStep_appends[of minT seg lines l1 r1 a]
  obtain pre sa where s2: "?step (l1, r1) a = (Segment.endLine a + 1, r1 @ pre @ [sa])"
    and sa: "Segment.nodeType sa = Segment.nodeType a" "Segment.symbolName sa = childSymbol seg a"
      "Segment.startLine sa \<le> Segment.startLine a" "Segment.endLine sa = Segment.endLine a"
    by (metis prod.collapse)
  from touch have "Segment.startLine b \<le> Segment.endLine a + 1" by simp
  with containerStep_appends[of minT seg lines "Segment.endLine a + 1" "r1 @ pre @ [sa]" b]
  obtain sb where s3: "?step (Segment.endLine a + 1, r1 @ pre @ [sa]) b
        = (Segment.endLine b + 1, (r1 @ pre @ [sa]) @ [sb])"
    and sb: "Segment.nodeType sb = Segment.nodeType b" "Segment.symbolName sb = childSymbol seg b"
      "Segment.startLine sb = Segment.startLine b" "Segment.endLine sb = Segment.endLine b"
    by (metis append_Nil prod.collapse)
  obtain lastEnd result where s4:
    "foldl ?step (Segment.endLine b + 1, (r1 @ pre @ [sa]) @ [sb]) ys = (lastEnd, result)"
    by (cases "foldl ?step (Segment.endLine b + 1, (r1 @ pre @ [sa]) @ [sb]) ys")
  from containerLoop_appends[of minT seg lines "Segment.endLine b + 1" "(r1 @ pre @ [sa]) @ [sb]" ys]
  obtain more where r: "result = ((r1 @ pre @ [sa]) @ [sb]) @ more"
    and l: "more = [] \<longrightarrow> lastEnd = Segment.endLine b + 1"
    unfolding s4 by auto
  have all: "foldl ?step (Segment.startLine seg, []) (Segment.children seg) = (lastEnd, result)"
    by (simp only: ch foldl_append foldl_Cons s1 s2 s3 s4)
  define i where "i = length (r1 @ pre)"
  have i: "result ! i = sa" and j: "result ! (i + 1) = sb"
    and len: "i + 1 < length result" and last: "Suc (i + 1) = length result \<longrightarrow> more = []"
    unfolding r i_def by (simp_all add: nth_append)
  from len have len': "i < length result" by simp
  note a = splitContainer_nth[OF all len', unfolded i]
  note b = splitContainer_nth[OF all len, unfolded j]
  from a len have "Segment.endLine (splitContainer minT seg lines [] ! i) = Segment.endLine sa"
    by auto
  moreover from b last l sb(4)
  have "Segment.endLine b \<le> Segment.endLine (splitContainer minT seg lines [] ! (i + 1))"
    by auto
  ultimately show ?thesis using a b sa sb by (intro exI[of _ i]) simp
qed

text \<open>
  Claim C4, as stated, fails. In the class of the example, the second field carries the
  trailing comment of the line on which the first field ends. The container is oversize
  for \<open>maxChunkTokens = 7\<close>, and \<^verbatim>\<open>splitContainer\<close> emits the two child segments with the
  line ranges \<open>1..1\<close> and \<open>1..2\<close>, which share line 1.
\<close>

theorem splitContainer_overlap_counterexample:
  "extractTopLevelSegments class_tree = [class_segment]
   \<and> estimateTokens class_lines (Segment.startLine class_segment) (Segment.endLine class_segment) > 7
   \<and> splitContainer 1 class_segment class_lines [] =
       [Segment 0 0 ''class_declaration_header'' (Some ''Foo'') [] None,
        Segment 1 1 ''public_field_definition'' (Some ''Foo.x'') [] None,
        Segment 1 2 ''public_field_definition'' (Some ''Foo.y'') [] None,
        Segment 3 3 ''class_declaration_footer'' (Some ''Foo'') [] None]
   \<and> overlaps (Segment 1 1 ''public_field_definition'' (Some ''Foo.x'') [] None)
               (Segment 1 2 ''public_field_definition'' (Some ''Foo.y'') [] None)"
  by code_simp

text \<open>
  Claim C4, amended. When the children of a container are on separate lines in source
  order (the first child starts no earlier than the container, every child is a non-empty
  line range, and every child starts on a line after the one on which the previous child
  ends), the segments \<^verbatim>\<open>splitContainer\<close> emits (header and gap segments, child segments
  and the footer) are non-empty line ranges in increasing order, and no two of them
  overlap. When the children are only in source order (a child may start on the line on
  which the previous child ends) and none of them has the node type of the container's
  headers, no emitted header or gap segment overlaps any other emitted segment. When a
  child \<open>b\<close> follows a child \<open>a\<close>, starts no later than the line on which \<open>a\<close> ends and ends
  no earlier than it, the segments of \<open>a\<close> and \<open>b\<close> are emitted one after the other and both
  contain the line on which \<open>a\<close> ends.
\<close>

theorem splitContainer_disjoint:
  "(separated_from (Segment.startLine seg) (Segment.children seg) \<longrightarrow>
      laid_out (splitContainer minT seg lines [])
      \<and> (\<forall>i j. i < j \<and> j < length (splitContainer minT seg lines []) \<longrightarrow>
            \<not> overlaps (splitContainer minT seg lines [] ! i)
                        (splitContainer minT seg lines [] ! j)))
   \<and> (ordered_from (Segment.startLine seg) (Segment.children seg)
      \<and> (\<forall>c \<in> set (Segment.children seg). \<not> header_of seg c) \<longrightarrow>
      (\<forall>i j. i < j \<and> j < length (splitContainer minT seg lines [])
            \<and> (header_of seg (splitContainer minT seg lines [] ! i)
                 \<or> header_of seg (splitContainer minT seg lines [] ! j)) \<longrightarrow>
            \<not> overlaps (splitContainer minT seg lines [] ! i)
                        (splitContainer minT seg lines [] ! j)))
   \<and> (Segment.children seg = xs @ a # b # ys
      \<and> Segment.startLine a \<le> Segment.endLine a \<and> Segment.startLine b \<le> Segment.endLine a
      \<and> Segment.endLine a \<le> Segment.endLine b \<longrightarrow>
      (\<exists>i. i + 1 < length (splitContainer minT seg lines [])
          \<and> Segment.nodeType (splitContainer minT seg lines [] ! i) = Segment.nodeType a
          \<and> Segment.symbolName (splitContainer minT seg lines [] ! i) = childSymbol seg a
          \<and> Segment.nodeType (splitContainer minT seg lines [] ! (i + 1)) = Segment.nodeType b
          \<and> Segment.symbolName (splitContainer minT seg lines [] ! (i + 1)) = childSymbol seg b
          \<and> contains_line (splitContainer minT seg lines [] ! i) (Segment.endLine a)
          \<and> contains_line (splitContainer minT seg lines [] ! (i + 1)) (Segment.endLine a)))"
proof (intro conjI impI)
  assume "separated_from (Segment.startLine seg) (Segment.children seg)"
  then show "laid_out (splitContainer minT seg lines [])" by (rule splitContainer_laid_out)
  then show "\<forall>i j. i < j \<and> j < length (splitContainer minT seg lines []) \<longrightarrow>
            \<not> overlaps (splitContainer minT seg lines [] ! i)
                        (splitContainer minT seg lines [] ! j)"
    using laid_out_disjoint by blast
next
  assume "ordered_from (Segment.startLine seg) (Segment.children seg)
      \<and> (\<forall>c \<in> set (Segment.children seg). \<not> header_of seg c)"
  then have "headers_apart seg (splitContainer minT seg lines [])"
    by (intro splitContainer_headers) simp_all
  then show "\<forall>i j. i < j \<and> j < length (splitContainer minT seg lines [])
            \<and> (header_of seg (splitContainer minT seg lines [] ! i)
                 \<or> header_of seg (splitContainer minT seg lines [] ! j)) \<longrightarrow>
            \<not> overlaps (splitContainer minT seg lines [] ! i)
                        (splitContainer minT seg lines [] ! j)"
    using headers_apart_disjoint by blast
next
  assume h: "Segment.children seg = xs @ a # b # ys
      \<and> Segment.startLine a \<le> Segment.endLine a \<and> Segment.startLine b \<le> Segment.endLine a
      \<and> Segment.endLine a \<le> Segment.endLine b"
  then have "Segment.children seg = xs @ a # b # ys"
    and "Segment.startLine b \<le> Segment.endLine a"
    by simp_all
  from splitContainer_consecutive[OF this, of minT lines]
  obtain i where "i + 1 < length (splitContainer minT seg lines [])"
      "Segment.nodeType (splitContainer minT seg lines [] ! i) = Segment.nodeType a"
      "Segment.symbolName (splitContainer minT seg lines [] ! i) = childSymbol seg a"
      "Segment.startLine (splitContainer minT seg lines [] ! i) \<le> Segment.startLine a"
      "Segment.endLine (splitContainer minT seg lines [] ! i) = Segment.endLine a"
      "Segment.nodeType (splitContainer minT seg lines [] ! (i + 1)) = Segment.nodeType b"
      "Segment.symbolName (splitContainer minT seg lines [] ! (i + 1)) = childSymbol seg b"
      "Segment.startLine (splitContainer minT seg lines [] ! (i + 1)) = Segment.startLine b"
      "Segment.endLine b \<le> Segment.endLine (splitContainer minT seg lines [] ! (i + 1))"
    by blast
  with h show "\<exists>i. i + 1 < length (splitContainer minT seg lines [])
          \<and> Segment.nodeType (splitContainer minT seg lines [] ! i) = Segment.nodeType a
          \<and> Segment.symbolName (splitContainer minT seg lines [] ! i) = childSymbol seg a
          \<and> Segment.nodeType (splitContainer minT seg lines [] ! (i + 1)) = Segment.nodeType b
          \<and> Segment.symbolName (splitContainer minT seg lines [] ! (i + 1)) = childSymbol seg b
          \<and> contains_line (splitContainer minT seg lines [] ! i) (Segment.endLine a)
          \<and> contains_line (splitContainer minT seg lines [] ! (i + 1)) (Segment.endLine a)"
    by (intro exI[of _ i]) (simp add: contains_line_def)
qed

theorem splitContainer_disjoint_witness:
  "separated_from (Segment.startLine class2_segment) (Segment.children class2_segment)
   \<and> splitContainer 1 class2_segment class2_lines [] =
       [Segment 0 0 ''class_declaration_header'' (Some ''Foo'') [] None,
        Segment 1 1 ''public_field_definition'' (Some ''Foo.x'') [] None,
        Segment 2 3 ''public_field_definition'' (Some ''Foo.y'') [] None,
        Segment 4 4 ''class_declaration_footer'' (Some ''Foo'') [] None]
   \<and> laid_out (splitContainer 1 class2_segment class2_lines [])
   \<and> \<not> overlaps (splitContainer 1 class2_segment class2_lines [] ! 1)
                 (splitContainer 1 class2_segment class2_lines [] ! 2)
   \<and> ordered_from (Segment.startLine class_segment) (Segment.children class_segment)
   \<and> list_all (\<lambda>c. \<not> header_of class_segment c) (Segment.children class_segment)
   \<and> header_of class_segment (splitContainer 1 class_segment class_lines [] ! 0)
   \<and> \<not> overlaps (splitContainer 1 class_segment class_lines [] ! 0)
                 (splitContainer 1 class_segment class_lines [] ! 1)
   \<and> Segment.children class_segment
       = [] @ Segment 1 1 ''public_field_definition'' (Some ''x'') [] None
            # Segment 1 2 ''public_field_definition'' (Some ''y'') [] None # []
   \<and> (\<exists>i. i + 1 < length (splitContainer 1 class_segment class_lines [])
          \<and> Segment.symbolName (splitContainer 1 class_segment class_lines [] ! i) = Some ''Foo.x''
          \<and> Segment.symbolName (splitContainer 1 class_segment class_lines [] ! (i + 1)) = Some ''Foo.y''
          \<and> contains_line (splitContainer 1 class_segment class_lines [] ! i) 1
          \<and> contains_line (splitContainer 1 class_segment class_lines [] ! (i + 1)) 1)"
proof -
  let ?x = "Segment 1 1 ''public_field_definition'' (Some ''x'') [] None"
  let ?y = "Segment 1 2 ''public_field_definition'' (Some ''y'') [] None"
  have sep: "separated_from (Segment.startLine class2_segment) (Segment.children class2_segment)"
    by (simp add: class2_segment_def)
  have ev: "splitContainer 1 class2_segment class2_lines [] =
       [Segment 0 0 ''class_declaration_header'' (Some ''Foo'') [] None,
        Segment 1 1 ''public_field_definition'' (Some ''Foo.x'') [] None,
        Segment 2 3 ''public_field_definition'' (Some ''Foo.y'') [] None,
        Segment 4 4 ''class_declaration_footer'' (Some ''Foo'') [] None]"
    by code_simp
  have len: "(1::nat) < 2 \<and> 2 < length (splitContainer 1 class2_segment class2_lines [])"
    unfolding ev by simp
  have ord: "ordered_from (Segment.startLine class_segment) (Segment.children class_segment)"
    by (simp add: class_segment_def)
  have ty: "list_all (\<lambda>c. \<not> header_of class_segment c) (Segment.children class_segment)"
    by (simp add: class_segment_def header_of_def)
  have hd: "header_of class_segment (splitContainer 1 class_segment class_lines [] ! 0)"
    by code_simp
  have len': "(0::nat) < 1 \<and> 1 < length (splitContainer 1 class_segment class_lines [])"
    by code_simp
  have ch: "Segment.children class_segment = [] @ ?x # ?y # []"
    by (simp add: class_segment_def)
  have tch: "Segment.startLine ?x \<le> Segment.endLine ?x \<and> Segment.startLine ?y \<le> Segment.endLine ?x
      \<and> Segment.endLine ?x \<le> Segment.endLine ?y"
    by simp
  have sx: "childSymbol class_segment ?x = Some ''Foo.x''"
    and sy: "childSymbol class_segment ?y = Some ''Foo.y''"
    by code_simp+
  from splitContainer_disjoint[of class2_segment 1 class2_lines] sep len
  have a: "laid_out (splitContainer 1 class2_segment class2_lines [])"
    and b: "\<not> overlaps (splitContainer 1 class2_segment class2_lines [] ! 1)
                    (splitContainer 1 class2_segment class2_lines [] ! 2)"
    by blast+
  from splitContainer_disjoint[of class_segment 1 class_lines] ord ty hd len'
  have c: "\<not> overlaps (splitContainer 1 class_segment class_lines [] ! 0)
                    (splitContainer 1 class_segment class_lines [] ! 1)"
    unfolding list_all_iff by blast
  from splitContainer_disjoint[of class_segment 1 class_lines "[]" ?x ?y "[]"] ch tch
  have "\<exists>i. i + 1 < length (splitContainer 1 class_segment class_lines [])
          \<and> Segment.nodeType (splitContainer 1 class_segment class_lines [] ! i) = Segment.nodeType ?x
          \<and> Segment.symbolName (splitContainer 1 class_segment class_lines [] ! i)
              = childSymbol class_segment ?x
          \<and> Segment.nodeType (splitContainer 1 class_segment class_lines [] ! (i + 1)) = Segment.nodeType ?y
          \<and> Segment.symbolName (splitContainer 1 class_segment class_lines [] ! (i + 1))
              = childSymbol class_segment ?y
          \<and> contains_line (splitContainer 1 class_segment class_lines [] ! i) (Segment.endLine ?x)
          \<and> contains_line (splitContainer 1 class_segment class_lines [] ! (i + 1)) (Segment.endLine ?x)"
    by blast
  then have d: "\<exists>i. i + 1 < length (splitContainer 1 class_segment class_lines [])
          \<and> Segment.symbolName (splitContainer 1 class_segment class_lines [] ! i) = Some ''Foo.x''
          \<and> Segment.symbolName (splitContainer 1 class_segment class_lines [] ! (i + 1)) = Some ''Foo.y''
          \<and> contains_line (splitContainer 1 class_segment class_lines [] ! i) 1
          \<and> contains_line (splitContainer 1 class_segment class_lines [] ! (i + 1)) 1"
    unfolding sx sy Segment.sel by blast
  from sep ev a b ord ty hd c ch d show ?thesis by blast
qed

section \<open>The Merkle summary: paths and directories\<close>

lemma lastIndexOf_SomeD:
  assumes "lastIndexOf s c = Some i"
  shows "i < length s \<and> s ! i = c \<and> c \<notin> set (drop (Suc i) s)"
proof -
  define tl where "tl = takeWhile (\<lambda>x. x \<noteq> c) (rev s)"
  define n where "n = length tl"
  from assms have n: "n \<noteq> length s" and i: "i = length s - 1 - n"
    by (auto simp: lastIndexOf_def Let_def tl_def n_def split: if_splits)
  have "n \<le> length (rev s)" unfolding n_def tl_def by (rule length_takeWhile_le)
  with n have lt: "n < length s" by simp
  then have il: "i < length s" using i by simp
  have "rev s ! n = c"
  proof -
    have "n < length (rev s)" using lt by simp
    then have "\<not> (rev s ! n \<noteq> c)"
      unfolding n_def tl_def by (rule nth_length_takeWhile)
    then show ?thesis by simp
  qed
  moreover have "rev s ! n = s ! i" using lt i by (simp add: rev_nth)
  ultimately have at: "s ! i = c" by simp
  have "drop (Suc i) s = rev (take n (rev s))"
    using lt i by (simp add: take_rev Suc_diff_Suc)
  also have "take n (rev s) = tl"
    unfolding n_def tl_def by (simp add: takeWhile_eq_take[symmetric])
  finally have "set (drop (Suc i) s) = set tl" by simp
  moreover have "c \<notin> set tl" unfolding tl_def by (auto dest: set_takeWhileD)
  ultimately show ?thesis using il at by simp
qed

lemma length_split_on: "length (split_on sep s) = Suc (length (filter (\<lambda>x. x = sep) s))"
  by (induction s) (auto split: list.splits)

lemma depth_parent:
  assumes "tsParentPath c = d" "d \<noteq> ''.''"
  shows "depth c = Suc (depth d)"
proof -
  from assms obtain i where i: "lastIndexOf c CHR ''/'' = Some i" and d: "d = take i c"
    by (auto simp: tsParentPath_def substring_def Let_def split: option.splits)
  from lastIndexOf_SomeD[OF i] have il: "i < length c" and at: "c ! i = CHR ''/''"
    and rest: "CHR ''/'' \<notin> set (drop (Suc i) c)" by simp_all
  have c: "c = take i c @ CHR ''/'' # drop (Suc i) c"
    using il at by (metis id_take_nth_drop)
  have "filter (\<lambda>x. x = CHR ''/'') (drop (Suc i) c) = []"
    using rest by (auto simp: filter_empty_conv)
  then have "length (filter (\<lambda>x. x = CHR ''/'') c)
               = Suc (length (filter (\<lambda>x. x = CHR ''/'') (take i c)))"
    by (subst c) simp
  then show ?thesis by (simp add: depth_def length_split_on d)
qed

section \<open>The Merkle summary: registering directories\<close>

lemma add_child_map_of:
  "map_of (add_child dc p c) =
     (map_of dc)(p \<mapsto> (case map_of dc p of None \<Rightarrow> [c] | Some s \<Rightarrow> set_add s c))"
  unfolding add_child_def by (cases "map_of dc p") (simp_all add: update_conv')

lemma add_child_distinct: "distinct (map fst dc) \<Longrightarrow> distinct (map fst (add_child dc p c))"
  unfolding add_child_def by (cases "map_of dc p") (simp_all add: distinct_update)

lemma add_child_keys: "fst ` set (add_child dc p c) = insert p (fst ` set dc)"
  unfolding add_child_def by (cases "map_of dc p") (simp_all add: dom_update)

lemma set_set_add: "set (set_add s x) = insert x (set s)"
  unfolding set_add_def by auto

lemma add_child_ok:
  assumes "dc_ok dc" "tsParentPath c = p"
  shows "dc_ok (add_child dc p c)"
  unfolding dc_ok_def
proof (intro conjI allI impI ballI)
  show "distinct (map fst (add_child dc p c))"
    using assms(1) by (simp add: dc_ok_def add_child_distinct)
next
  fix d cs x
  assume m: "map_of (add_child dc p c) d = Some cs" and x: "x \<in> set cs"
  show "tsParentPath x = d"
  proof (cases "d = p")
    case False
    with m have "map_of dc d = Some cs" by (simp add: add_child_map_of)
    with assms(1) x show ?thesis unfolding dc_ok_def by blast
  next
    case True
    show ?thesis
    proof (cases "map_of dc p")
      case None
      with m True have "cs = [c]" by (simp add: add_child_map_of)
      with x assms(2) True show ?thesis by simp
    next
      case (Some s)
      with m True have "cs = set_add s c" by (simp add: add_child_map_of)
      with x have "x = c \<or> x \<in> set s" by (simp add: set_set_add)
      with Some assms True show ?thesis unfolding dc_ok_def by blast
    qed
  qed
qed

lemma registerParents_ok: "dc_ok dc \<Longrightarrow> dc_ok (registerParents dc p)"
proof (induction dc p rule: registerParents.induct)
  case (1 dirChildren current)
  have a: "dc_ok (add_child dirChildren (tsParentPath current) current)"
    using "1.prems" by (rule add_child_ok) simp
  show ?case
  proof (cases "tsParentPath current = current \<or> tsParentPath current = ''.''")
    case True
    then show ?thesis
      using a add_child_ok[OF a, of current "''.''"]
      by (subst registerParents.simps) (auto simp: Let_def)
  next
    case False
    then show ?thesis
      using "1.IH"[OF refl refl False a]
      by (subst registerParents.simps) (simp add: Let_def)
  qed
qed

lemma registerParents_keys:
  "fst ` set (registerParents dc p) = fst ` set dc \<union> set (ancestors p)"
proof (induction dc p rule: registerParents.induct)
  case (1 dirChildren current)
  show ?case
  proof (cases "tsParentPath current = current \<or> tsParentPath current = ''.''")
    case True
    then show ?thesis
      by (subst registerParents.simps, subst ancestors.simps)
         (auto simp: Let_def add_child_keys)
  next
    case False
    then show ?thesis
      using "1.IH"[OF refl refl False]
      by (subst registerParents.simps, subst ancestors.simps)
         (auto simp: Let_def add_child_keys)
  qed
qed

section \<open>The Merkle summary: association lists\<close>

lemma update_cases: "x \<in> set (AList.update k v al) \<Longrightarrow> x = (k, v) \<or> x \<in> set al"
  by (induction al) (auto split: if_splits)

lemma update_append_new: "k \<notin> fst ` set al \<Longrightarrow> AList.update k v al = al @ [(k, v)]"
  by (induction al) auto

lemma nodes_ok_update:
  assumes "nodes_ok nodes" "path n = k"
  shows "nodes_ok (AList.update k n nodes)"
  using assms unfolding nodes_ok_def
  by (auto simp: distinct_update dest!: update_cases)

lemma nodes_ok_find:
  assumes "\<forall>(k, n) \<in> set nodes. path n = k"
  shows "find (\<lambda>n. path n = p) (map snd nodes) = map_of nodes p"
  using assms by (induction nodes) auto

lemma nodeHash_child_hash:
  "nodes_ok nodes \<Longrightarrow> nodeHash (map snd nodes) p = child_hash nodes p"
  by (simp add: nodeHash_def child_hash_def nodes_ok_find nodes_ok_def)

section \<open>The Merkle summary: the first loop\<close>

lemma insertLeaf_ok: "leaves_ok st \<Longrightarrow> leaves_ok (insertLeaf st fh)"
  unfolding leaves_ok_def insertLeaf_def
  by (cases st)
     (auto simp: nodes_ok_update leafNode_def registerParents_ok dest!: update_cases)

lemma insertLeaves_ok: "leaves_ok st \<Longrightarrow> leaves_ok (foldl insertLeaf st fhs)"
  by (induction fhs arbitrary: st) (simp_all add: insertLeaf_ok)

section \<open>The Merkle summary: the second loop\<close>

lemma dirStep_map_of:
  "map_of (dirStep digest dc nodes d) k = (if k = d then map_of (dirStep digest dc nodes d) d
                                           else map_of nodes k)"
  unfolding dirStep_def Let_def by (simp add: update_conv')

lemma dirStep_at:
  "map_of (dirStep digest dc nodes d) d =
     Some \<lparr> path = d,
            hash = digest (concat (sort (map (child_hash nodes)
                      (sort (case map_of dc d of Some s \<Rightarrow> s | None \<Rightarrow> []))))),
            isFile = False,
            children = sort (case map_of dc d of Some s \<Rightarrow> s | None \<Rightarrow> []) \<rparr>"
  unfolding dirStep_def Let_def by (simp add: update_conv')

lemma dirStep_ok: "nodes_ok nodes \<Longrightarrow> nodes_ok (dirStep digest dc nodes d)"
  unfolding dirStep_def Let_def by (rule nodes_ok_update) simp_all

lemma dirLoop_ok: "nodes_ok nodes \<Longrightarrow> nodes_ok (foldl (dirStep digest dc) nodes ds)"
  by (induction ds arbitrary: nodes) (simp_all add: dirStep_ok)

lemma dirLoop_other:
  "k \<notin> set ds \<Longrightarrow> map_of (foldl (dirStep digest dc) nodes ds) k = map_of nodes k"
proof (induction ds arbitrary: nodes)
  case Nil
  then show ?case by simp
next
  case (Cons d ds)
  then have "map_of (foldl (dirStep digest dc) (dirStep digest dc nodes d) ds) k
               = map_of (dirStep digest dc nodes d) k" by simp
  also have "\<dots> = map_of nodes k" using Cons.prems by (subst dirStep_map_of) simp
  finally show ?case by simp
qed

lemma dirLoop_at:
  assumes "d \<notin> set post"
  shows "map_of (foldl (dirStep digest dc) nodes (pre @ d # post)) d
           = map_of (dirStep digest dc (foldl (dirStep digest dc) nodes pre) d) d"
  using assms by (simp add: dirLoop_other)

lemma deepest_first_later:
  assumes "deepest_first ps = pre @ d # post" "x \<in> set post"
  shows "depth x \<le> depth d"
proof -
  have "sorted (map (\<lambda>p. - int (depth p)) (deepest_first ps))"
    unfolding deepest_first_def by (rule sorted_sort_key)
  with assms show ?thesis by (auto simp: sorted_append)
qed

text \<open>A directory other than the root is hashed after all its children have their
  final hashes: its child directories are deeper by one and were processed before it.\<close>

lemma dir_node_hash:
  assumes n: "n \<in> set (tsBuildMerkleTree digest fileHashes)"
    and dir: "\<not> isFile n" and notroot: "path n \<noteq> ''.''"
  shows "hash n = digest (concat (sort (map (nodeHash (tsBuildMerkleTree digest fileHashes))
                                           (children n))))
       \<and> sorted (children n) \<and> (\<forall>c \<in> set (children n). tsParentPath c = path n)
       \<and> children n = sort (registered (snd (foldl insertLeaf ([], []) fileHashes)) (path n))"
proof -
  obtain nodes0 dc where ph1: "foldl insertLeaf ([], []) fileHashes = (nodes0, dc)"
    by (cases "foldl insertLeaf ([], []) fileHashes")
  define ds where "ds = deepest_first (map fst dc)"
  define final where "final = foldl (dirStep digest dc) nodes0 ds"
  have res: "tsBuildMerkleTree digest fileHashes = map snd final"
    by (simp add: tsBuildMerkleTree_def ph1 final_def ds_def)
  have "leaves_ok ([], [])" by (simp add: leaves_ok_def nodes_ok_def dc_ok_def)
  from insertLeaves_ok[OF this, of fileHashes] ph1
  have ok0: "nodes_ok nodes0" and dcok: "dc_ok dc" and files0: "\<forall>(k, n) \<in> set nodes0. isFile n"
    by (simp_all add: leaves_ok_def)
  have okf: "nodes_ok final" unfolding final_def using ok0 by (rule dirLoop_ok)
  define d where "d = path n"
  from n res obtain k where kn: "(k, n) \<in> set final" by auto
  with okf have "k = d" by (auto simp: nodes_ok_def d_def)
  with kn okf have at: "map_of final d = Some n" by (simp add: nodes_ok_def)
  have "d \<in> set ds"
  proof (rule ccontr)
    assume "d \<notin> set ds"
    then have "map_of final d = map_of nodes0 d" unfolding final_def by (rule dirLoop_other)
    with at have "(d, n) \<in> set nodes0" by (simp add: map_of_SomeD)
    with files0 dir show False by auto
  qed
  then obtain pre post where split: "ds = pre @ d # post" by (auto dest: split_list)
  have "distinct ds" unfolding ds_def deepest_first_def using dcok by (simp add: dc_ok_def)
  with split have dpost: "d \<notin> set post" by simp
  define before where "before = foldl (dirStep digest dc) nodes0 pre"
  define cs where "cs = sort (case map_of dc d of Some s \<Rightarrow> s | None \<Rightarrow> [])"
  have "map_of final d = map_of (dirStep digest dc before d) d"
    unfolding final_def split before_def using dpost by (rule dirLoop_at)
  with at have n_eq: "n = \<lparr> path = d,
            hash = digest (concat (sort (map (child_hash before) cs))),
            isFile = False, children = cs \<rparr>"
    by (simp add: dirStep_at cs_def)
  have parent: "tsParentPath c = d" if "c \<in> set cs" for c
  proof (cases "map_of dc d")
    case None
    with that show ?thesis by (simp add: cs_def)
  next
    case (Some s)
    with that have "c \<in> set s" by (simp add: cs_def)
    with Some dcok show ?thesis unfolding dc_ok_def by blast
  qed
  have same: "child_hash before c = nodeHash (map snd final) c" if "c \<in> set cs" for c
  proof -
    from parent[OF that] notroot have dep: "depth c = Suc (depth d)"
      by (intro depth_parent) (simp_all add: d_def)
    have "c \<notin> set (d # post)"
    proof
      assume "c \<in> set (d # post)"
      then consider "c = d" | "c \<in> set post" by auto
      then show False
      proof cases
        case 1
        with dep show False by simp
      next
        case 2
        with split have "depth c \<le> depth d"
          unfolding ds_def by (intro deepest_first_later) auto
        with dep show False by simp
      qed
    qed
    then have "map_of (foldl (dirStep digest dc) before (d # post)) c = map_of before c"
      by (rule dirLoop_other)
    moreover have "final = foldl (dirStep digest dc) before (d # post)"
      by (simp add: final_def split before_def)
    ultimately have "child_hash final c = child_hash before c" by (simp add: child_hash_def)
    with okf show ?thesis by (simp add: nodeHash_child_hash)
  qed
  then have m: "map (child_hash before) cs = map (nodeHash (map snd final)) cs" by simp
  from n_eq have ch: "children n = cs"
    and h: "hash n = digest (concat (sort (map (child_hash before) cs)))"
    by (metis MerkleNode.select_convs(4), metis MerkleNode.select_convs(2))
  have "sorted cs" unfolding cs_def by simp
  moreover from m h have "hash n = digest (concat (sort (map (nodeHash (map snd final)) cs)))"
    by (simp only:)
  moreover from parent have "\<forall>c \<in> set cs. tsParentPath c = path n" by (simp add: d_def)
  moreover have "cs = sort (registered (snd (foldl insertLeaf ([], []) fileHashes)) (path n))"
    by (simp add: cs_def registered_def ph1 d_def)
  ultimately show ?thesis unfolding res ch by blast
qed

section \<open>The Merkle summary: the file nodes of a summary\<close>

lemma insertLeaves_nodes:
  assumes "distinct (map FileHashEntry.path fhs)"
    and "FileHashEntry.path ` set fhs \<inter> fst ` set nodes = {}"
  shows "fst (foldl insertLeaf (nodes, dc) fhs)
           = nodes @ map (\<lambda>f. (FileHashEntry.path f, leafNode f)) fhs"
  using assms
proof (induction fhs arbitrary: nodes dc)
  case Nil
  then show ?case by simp
next
  case (Cons f fhs)
  have new: "FileHashEntry.path f \<notin> fst ` set nodes" using Cons.prems(2) by auto
  have step: "insertLeaf (nodes, dc) f
     = (nodes @ [(FileHashEntry.path f, leafNode f)], registerParents dc (FileHashEntry.path f))"
    by (simp add: insertLeaf_def update_append_new[OF new])
  have "FileHashEntry.path ` set fhs \<inter> fst ` set (nodes @ [(FileHashEntry.path f, leafNode f)]) = {}"
    using Cons.prems by auto
  with Cons.IH[of "nodes @ [(FileHashEntry.path f, leafNode f)]"] Cons.prems(1)
  show ?case by (simp add: step)
qed

lemma insertLeaves_keys:
  "fst ` set (snd (foldl insertLeaf (nodes, dc) fhs))
     = fst ` set dc \<union> (\<Union>f \<in> set fhs. set (ancestors (FileHashEntry.path f)))"
proof (induction fhs arbitrary: nodes dc)
  case Nil
  then show ?case by simp
next
  case (Cons f fhs)
  have step: "insertLeaf (nodes, dc) f
     = (AList.update (FileHashEntry.path f) (leafNode f) nodes,
        registerParents dc (FileHashEntry.path f))"
    by (simp add: insertLeaf_def)
  show ?case
    unfolding foldl_Cons step by (simp add: Cons.IH registerParents_keys Un_assoc)
qed

lemma update_keeps_files:
  assumes "\<not> P v" "\<forall>(k, n) \<in> set al. P n \<longrightarrow> k \<noteq> d"
  shows "filter (\<lambda>kn. P (snd kn)) (AList.update d v al) = filter (\<lambda>kn. P (snd kn)) al"
  using assms by (induction al) auto

lemma dirStep_files:
  assumes "\<forall>(k, n) \<in> set nodes. isFile n \<longrightarrow> k \<noteq> d"
  shows "filter (\<lambda>kn. isFile (snd kn)) (dirStep digest dc nodes d) = filter (\<lambda>kn. isFile (snd kn)) nodes"
  unfolding dirStep_def Let_def using assms by (intro update_keeps_files) simp_all

lemma dirLoop_files:
  assumes "\<forall>d \<in> set ds. \<forall>(k, n) \<in> set nodes. isFile n \<longrightarrow> k \<noteq> d"
  shows "filter (\<lambda>kn. isFile (snd kn)) (foldl (dirStep digest dc) nodes ds)
           = filter (\<lambda>kn. isFile (snd kn)) nodes"
  using assms
proof (induction ds arbitrary: nodes)
  case Nil
  then show ?case by simp
next
  case (Cons d ds)
  have eq: "filter (\<lambda>kn. isFile (snd kn)) (dirStep digest dc nodes d)
              = filter (\<lambda>kn. isFile (snd kn)) nodes"
    using Cons.prems by (intro dirStep_files) simp
  have "\<forall>d' \<in> set ds. \<forall>(k, n) \<in> set (dirStep digest dc nodes d). isFile n \<longrightarrow> k \<noteq> d'"
  proof (intro ballI, clarify)
    fix d' k n
    assume d': "d' \<in> set ds" and kn: "(d', n) \<in> set (dirStep digest dc nodes d)" and f: "isFile n"
    then have "(d', n) \<in> set (filter (\<lambda>kn. isFile (snd kn)) (dirStep digest dc nodes d))" by simp
    with eq have "(d', n) \<in> set nodes" by simp
    with Cons.prems d' f show False by auto
  qed
  from Cons.IH[OF this] eq show ?case by simp
qed

lemma file_tree_no_dir:
  assumes "file_tree fhs" "f \<in> set fhs" "g \<in> set fhs"
  shows "FileHashEntry.path f \<notin> set (ancestors (FileHashEntry.path g))"
  using assms unfolding file_tree_def by (auto simp: list_all_iff)

lemma build_file_nodes:
  assumes "file_tree fhs"
  shows "filter isFile (tsBuildMerkleTree digest fhs) = map leafNode fhs"
proof -
  obtain nodes0 dc where ph1: "foldl insertLeaf ([], []) fhs = (nodes0, dc)"
    by (cases "foldl insertLeaf ([], []) fhs")
  from assms have dist: "distinct (map FileHashEntry.path fhs)" by (simp add: file_tree_def)
  from insertLeaves_nodes[OF dist, of "[]" "[]"] ph1
  have n0: "nodes0 = map (\<lambda>f. (FileHashEntry.path f, leafNode f)) fhs" by simp
  from insertLeaves_keys[of "[]" "[]" fhs] ph1
  have keys: "fst ` set dc = (\<Union>f \<in> set fhs. set (ancestors (FileHashEntry.path f)))" by simp
  have "\<forall>d \<in> set (deepest_first (map fst dc)). \<forall>(k, n) \<in> set nodes0. isFile n \<longrightarrow> k \<noteq> d"
  proof (intro ballI, clarify)
    fix d n
    assume "d \<in> set (deepest_first (map fst dc))" and "(d, n) \<in> set nodes0"
    then have "d \<in> fst ` set dc" and "d \<in> FileHashEntry.path ` set fhs"
      by (auto simp: deepest_first_def n0)
    with keys file_tree_no_dir[OF assms] show False by auto
  qed
  from dirLoop_files[OF this, of digest dc]
  have "filter (\<lambda>kn. isFile (snd kn)) (foldl (dirStep digest dc) nodes0 (deepest_first (map fst dc)))
          = filter (\<lambda>kn. isFile (snd kn)) nodes0" .
  also have "\<dots> = nodes0" by (simp add: n0 leafNode_def filter_map comp_def)
  finally have "filter isFile (map snd (foldl (dirStep digest dc) nodes0 (deepest_first (map fst dc))))
          = map snd nodes0"
    by (simp add: filter_map comp_def)
  then show ?thesis
    by (simp add: tsBuildMerkleTree_def ph1 n0 comp_def)
qed

lemma new_Map_distinct:
  assumes "distinct (map fst xs)"
  shows "new_Map xs = xs"
proof -
  have "distinct (map fst xs) \<Longrightarrow> fst ` set xs \<inter> fst ` set m = {}
          \<Longrightarrow> foldl (\<lambda>m (k, v). AList.update k v m) m xs = m @ xs" for m
  proof (induction xs arbitrary: m)
    case Nil
    then show ?case by simp
  next
    case (Cons x xs)
    obtain k v where x: "x = (k, v)" by (cases x)
    from Cons.prems have new: "k \<notin> fst ` set m" by (auto simp: x)
    have "fst ` set xs \<inter> fst ` set (m @ [(k, v)]) = {}"
      using Cons.prems by (auto simp: x)
    with Cons.IH[of "m @ [(k, v)]"] Cons.prems(1)
    show ?case by (simp add: x update_append_new[OF new])
  qed
  from this[of "[]"] assms show ?thesis by (simp add: new_Map_def)
qed

lemma fileMap_build:
  assumes "file_tree fhs"
  shows "fileMap (tsBuildMerkleTree digest fhs) = map entry fhs"
proof -
  have e: "map (\<lambda>n. (path n, hash n)) (map leafNode fhs) = map entry fhs"
    by (simp add: leafNode_def comp_def)
  have d: "distinct (map fst (map entry fhs))"
    using assms by (simp add: file_tree_def comp_def)
  have "fileMap (tsBuildMerkleTree digest fhs)
          = new_Map (map (\<lambda>n. (path n, hash n)) (map leafNode fhs))"
    unfolding fileMap_def build_file_nodes[OF assms] ..
  also have "\<dots> = map entry fhs" unfolding e using d by (rule new_Map_distinct)
  finally show ?thesis .
qed

section \<open>The Merkle summary: the diff\<close>

lemma new_Map_keys_distinct: "distinct (map fst (new_Map xs))"
proof -
  have "distinct (map fst m) \<Longrightarrow> distinct (map fst (foldl (\<lambda>m (k, v). AList.update k v m) m xs))" for m
    by (induction xs arbitrary: m) (auto simp: distinct_update)
  from this[of "[]"] show ?thesis by (simp add: new_Map_def)
qed

lemma diff_lists_same:
  assumes "distinct (map fst m)"
  shows "filter (\<lambda>(p, h). map_of m p = None) m = []"
    and "filter (\<lambda>p. map_of m p = None) (map fst m) = []"
    and "filter (\<lambda>(p, h). case map_of m p of None \<Rightarrow> False | Some h' \<Rightarrow> h' \<noteq> h) m = []"
proof -
  have at: "map_of m p = Some h" if "(p, h) \<in> set m" for p h
    using assms that by simp
  show "filter (\<lambda>(p, h). map_of m p = None) m = []"
    by (auto simp: filter_empty_conv dest: at)
  show "filter (\<lambda>p. map_of m p = None) (map fst m) = []"
    by (auto simp: filter_empty_conv dest: at)
  show "filter (\<lambda>(p, h). case map_of m p of None \<Rightarrow> False | Some h' \<Rightarrow> h' \<noteq> h) m = []"
    by (auto simp: filter_empty_conv dest: at)
qed

lemma diff_same:
  "tsDiffMerkleTrees nodes nodes = \<lparr> added = [], removed = [], modified = [] \<rparr>"
  unfolding tsDiffMerkleTrees_def Let_def fileMap_def
  by (simp add: diff_lists_same[OF new_Map_keys_distinct])

lemma diff_files_only:
  "tsDiffMerkleTrees oldNodes newNodes
     = tsDiffMerkleTrees (filter isFile oldNodes) (filter isFile newNodes)"
  by (simp add: tsDiffMerkleTrees_def fileMap_def)

lemma file_tree_paths:
  "file_tree fhs \<longleftrightarrow>
     distinct (map FileHashEntry.path fhs)
     \<and> (\<forall>p \<in> set (map FileHashEntry.path fhs). \<forall>q \<in> set (map FileHashEntry.path fhs).
           p \<notin> set (ancestors q))"
  by (auto simp: file_tree_def list_all_iff)

lemma file_tree_remove: "file_tree (xs @ f # ys) \<Longrightarrow> file_tree (xs @ ys)"
  unfolding file_tree_paths by auto

lemma file_tree_rehash:
  "file_tree (xs @ f # ys) \<Longrightarrow> file_tree (xs @ f\<lparr>FileHashEntry.hash := h'\<rparr> # ys)"
  unfolding file_tree_paths by simp

lemma map_of_entry_in:
  assumes "distinct (map FileHashEntry.path fhs)" "f \<in> set fhs"
  shows "map_of (map entry fhs) (FileHashEntry.path f) = Some (FileHashEntry.hash f)"
proof -
  have "distinct (map fst (map entry fhs))" using assms(1) by (simp add: comp_def)
  moreover have "entry f \<in> set (map entry fhs)" using assms(2) by simp
  ultimately show ?thesis by (metis map_of_is_SomeI)
qed

lemma map_of_entry_out:
  assumes "p \<notin> FileHashEntry.path ` set fhs"
  shows "map_of (map entry fhs) p = None"
  using assms by (simp add: map_of_eq_None_iff image_image)

lemma diff_added:
  assumes "file_tree (xs @ f # ys)"
  shows "tsDiffMerkleTrees (tsBuildMerkleTree digest (xs @ ys)) (tsBuildMerkleTree digest (xs @ f # ys))
           = \<lparr> added = [FileHashEntry.path f], removed = [], modified = [] \<rparr>"
proof -
  define old where "old = map entry (xs @ ys)"
  define new where "new = map entry (xs @ f # ys)"
  have new_eq: "new = map entry xs @ entry f # map entry ys" by (simp add: new_def)
  have old_keys: "map fst old = map FileHashEntry.path xs @ map FileHashEntry.path ys"
    by (simp add: old_def comp_def)
  from assms have dY: "distinct (map FileHashEntry.path (xs @ f # ys))"
    by (simp add: file_tree_def)
  then have dX: "distinct (map FileHashEntry.path (xs @ ys))" by simp
  from dY have fnew: "FileHashEntry.path f \<notin> FileHashEntry.path ` set (xs @ ys)" by auto
  have inX: "map_of old (FileHashEntry.path g) = Some (FileHashEntry.hash g)"
    if "g \<in> set xs \<or> g \<in> set ys" for g
    unfolding old_def using that by (intro map_of_entry_in[OF dX]) auto
  have inY: "map_of new (FileHashEntry.path g) = Some (FileHashEntry.hash g)"
    if "g \<in> set xs \<or> g \<in> set ys" for g
    unfolding new_def using that by (intro map_of_entry_in[OF dY]) auto
  have outX: "map_of old (FileHashEntry.path f) = None"
    unfolding old_def using fnew by (rule map_of_entry_out)
  have a: "map fst (filter (\<lambda>(p, h). map_of old p = None) new) = [FileHashEntry.path f]"
    by (simp add: new_eq filter_empty_conv inX outX)
  have r: "filter (\<lambda>p. map_of new p = None) (map fst old) = []"
    by (simp add: old_keys filter_empty_conv inY)
  have m: "map fst (filter (\<lambda>(p, h). case map_of old p of None \<Rightarrow> False | Some h' \<Rightarrow> h' \<noteq> h) new) = []"
    by (simp add: new_eq filter_empty_conv inX outX)
  show ?thesis
    unfolding tsDiffMerkleTrees_def Let_def
      fileMap_build[OF assms] fileMap_build[OF file_tree_remove[OF assms]]
      old_def[symmetric] new_def[symmetric]
    using a r m by simp
qed

lemma diff_modified:
  assumes "file_tree (xs @ f # ys)" "FileHashEntry.hash f \<noteq> h'"
  shows "tsDiffMerkleTrees (tsBuildMerkleTree digest (xs @ f # ys))
           (tsBuildMerkleTree digest (xs @ f\<lparr>FileHashEntry.hash := h'\<rparr> # ys))
           = \<lparr> added = [], removed = [], modified = [FileHashEntry.path f] \<rparr>"
proof -
  define f' where "f' = f\<lparr>FileHashEntry.hash := h'\<rparr>"
  have f': "FileHashEntry.path f' = FileHashEntry.path f" "FileHashEntry.hash f' = h'"
    by (simp_all add: f'_def)
  define old where "old = map entry (xs @ f # ys)"
  define new where "new = map entry (xs @ f' # ys)"
  have new_eq: "new = map entry xs @ entry f' # map entry ys" by (simp add: new_def)
  have old_keys: "map fst old
      = map FileHashEntry.path xs @ FileHashEntry.path f # map FileHashEntry.path ys"
    by (simp add: old_def comp_def)
  from assms have dX: "distinct (map FileHashEntry.path (xs @ f # ys))"
    by (simp add: file_tree_def)
  then have dY: "distinct (map FileHashEntry.path (xs @ f' # ys))" by (simp add: f')
  have inX: "map_of old (FileHashEntry.path g) = Some (FileHashEntry.hash g)"
    if "g \<in> set xs \<or> g = f \<or> g \<in> set ys" for g
    unfolding old_def using that by (intro map_of_entry_in[OF dX]) auto
  have inY: "map_of new (FileHashEntry.path g) = Some (FileHashEntry.hash g)"
    if "g \<in> set xs \<or> g = f' \<or> g \<in> set ys" for g
    unfolding new_def using that by (intro map_of_entry_in[OF dY]) auto
  have inXf: "map_of old (FileHashEntry.path f') = Some (FileHashEntry.hash f)"
    using inX[of f] by (simp add: f')
  have inYf: "map_of new (FileHashEntry.path f) = Some h'"
    using inY[of f'] by (simp add: f')
  have a: "map fst (filter (\<lambda>(p, h). map_of old p = None) new) = []"
    by (simp add: new_eq filter_empty_conv inX inXf)
  have r: "filter (\<lambda>p. map_of new p = None) (map fst old) = []"
    by (simp add: old_keys filter_empty_conv inY inYf)
  have m: "map fst (filter (\<lambda>(p, h). case map_of old p of None \<Rightarrow> False | Some h' \<Rightarrow> h' \<noteq> h) new)
             = [FileHashEntry.path f]"
    using assms(2) by (simp add: new_eq filter_empty_conv inX inXf f')
  show ?thesis
    unfolding tsDiffMerkleTrees_def Let_def f'_def[symmetric]
      fileMap_build[OF assms(1)]
      fileMap_build[OF file_tree_rehash[OF assms(1), of h', folded f'_def]]
      old_def[symmetric] new_def[symmetric]
    using a r m by simp
qed

section \<open>The Merkle summary: the children of a directory\<close>

text \<open>The first loop registers, for every directory, the values of \<^verbatim>\<open>current\<close> whose parent
  path is the directory; for a directory other than the root these are the direct
  children of the directory in the file set.\<close>

lemma add_child_registered:
  "set (registered (add_child dc p c) d)
     = (if d = p then insert c (set (registered dc d)) else set (registered dc d))"
  unfolding registered_def add_child_map_of
  by (cases "map_of dc p") (auto simp: set_set_add)

lemma add_child_registered_distinct:
  assumes "\<forall>d. distinct (registered dc d)"
  shows "distinct (registered (add_child dc p c) d)"
  using assms[rule_format, of d] assms[rule_format, of p]
  unfolding registered_def add_child_map_of
  by (cases "map_of dc p") (auto simp: set_add_def)

lemma registerParents_registered:
  "set (registered (registerParents dc p) d)
     = set (registered dc d) \<union> {c \<in> set (chain p). tsParentPath c = d}"
proof (induction dc p rule: registerParents.induct)
  case (1 dirChildren current)
  show ?case
  proof (cases "tsParentPath current = current \<or> tsParentPath current = ''.''")
    case True
    then show ?thesis
      by (subst registerParents.simps, subst chain.simps)
         (auto simp: Let_def add_child_registered)
  next
    case False
    then show ?thesis
      using "1.IH"[OF refl refl False]
      by (subst registerParents.simps, subst chain.simps)
         (auto simp: Let_def add_child_registered)
  qed
qed

lemma registerParents_registered_distinct:
  "\<forall>d. distinct (registered dc d) \<Longrightarrow> distinct (registered (registerParents dc p) d)"
proof (induction dc p arbitrary: d rule: registerParents.induct)
  case (1 dirChildren current)
  have a: "\<forall>d. distinct (registered (add_child dirChildren (tsParentPath current) current) d)"
    using "1.prems" by (simp add: add_child_registered_distinct)
  show ?case
  proof (cases "tsParentPath current = current \<or> tsParentPath current = ''.''")
    case True
    then show ?thesis
      using a add_child_registered_distinct[OF a]
      by (subst registerParents.simps) (auto simp: Let_def)
  next
    case False
    then show ?thesis
      using "1.IH"[OF refl refl False a]
      by (subst registerParents.simps) (simp add: Let_def)
  qed
qed

lemma insertLeaves_registered:
  "set (registered (snd (foldl insertLeaf (nodes, dc) fhs)) d)
     = set (registered dc d)
       \<union> {c. \<exists>f \<in> set fhs. c \<in> set (chain (FileHashEntry.path f)) \<and> tsParentPath c = d}"
proof (induction fhs arbitrary: nodes dc)
  case Nil
  then show ?case by simp
next
  case (Cons f fhs)
  have step: "insertLeaf (nodes, dc) f
     = (AList.update (FileHashEntry.path f) (leafNode f) nodes,
        registerParents dc (FileHashEntry.path f))"
    by (simp add: insertLeaf_def)
  show ?case
    unfolding foldl_Cons step by (auto simp: Cons.IH registerParents_registered)
qed

lemma insertLeaves_registered_distinct:
  "\<forall>d. distinct (registered dc d) \<Longrightarrow>
     distinct (registered (snd (foldl insertLeaf (nodes, dc) fhs)) d)"
proof (induction fhs arbitrary: nodes dc d)
  case Nil
  then show ?case by simp
next
  case (Cons f fhs)
  have step: "insertLeaf (nodes, dc) f
     = (AList.update (FileHashEntry.path f) (leafNode f) nodes,
        registerParents dc (FileHashEntry.path f))"
    by (simp add: insertLeaf_def)
  have "\<forall>d. distinct (registered (registerParents dc (FileHashEntry.path f)) d)"
    using Cons.prems by (simp add: registerParents_registered_distinct)
  then show ?case unfolding foldl_Cons step by (rule Cons.IH)
qed

lemma tsParentPath_root: "tsParentPath ''.'' = ''.''"
  by code_simp

lemma chain_ancestors:
  "insert ''.'' (set (chain p)) = insert ''.'' (insert p (set (ancestors p)))"
proof (induction p rule: chain.induct)
  case (1 current)
  show ?case
  proof (cases "tsParentPath current = current \<or> tsParentPath current = ''.''")
    case True
    then show ?thesis
      by (subst chain.simps, subst ancestors.simps) (auto simp: Let_def)
  next
    case False
    then show ?thesis
      using "1.IH"[OF refl False]
      by (subst chain.simps, subst ancestors.simps) (auto simp: Let_def)
  qed
qed

lemma chain_children:
  assumes "d \<noteq> ''.''"
  shows "{c \<in> set (chain p). tsParentPath c = d}
           = {c \<in> insert p (set (ancestors p)). tsParentPath c = d}"
proof -
  have "{c \<in> set (chain p). tsParentPath c = d}
          = {c \<in> insert ''.'' (set (chain p)). tsParentPath c = d}"
    using assms by (auto simp: tsParentPath_root)
  also have "\<dots> = {c \<in> insert ''.'' (insert p (set (ancestors p))). tsParentPath c = d}"
    by (simp only: chain_ancestors)
  also have "\<dots> = {c \<in> insert p (set (ancestors p)). tsParentPath c = d}"
    using assms by (auto simp: tsParentPath_root)
  finally show ?thesis .
qed

lemma registered_direct_children:
  assumes "d \<noteq> ''.''"
  shows "sort (registered (snd (foldl insertLeaf ([], []) fhs)) d) = direct_children fhs d"
proof -
  let ?r = "registered (snd (foldl insertLeaf ([], []) fhs)) d"
  have "\<forall>d. distinct (registered ([] :: (string \<times> string list) list) d)"
    by (simp add: registered_def)
  then have dist: "distinct ?r" by (rule insertLeaves_registered_distinct)
  have e: "set (registered ([] :: (string \<times> string list) list) d) = {}"
    by (simp add: registered_def)
  have "set ?r = {c. \<exists>f \<in> set fhs. c \<in> set (chain (FileHashEntry.path f)) \<and> tsParentPath c = d}"
    unfolding insertLeaves_registered e by simp
  also have "\<dots> = (\<Union>f \<in> set fhs. {c \<in> set (chain (FileHashEntry.path f)). tsParentPath c = d})"
    by auto
  also have "\<dots> = (\<Union>f \<in> set fhs. {c \<in> insert (FileHashEntry.path f)
                      (set (ancestors (FileHashEntry.path f))). tsParentPath c = d})"
    by (simp only: chain_children[OF assms])
  also have "\<dots> = set (remdups (filter (\<lambda>c. tsParentPath c = d) (tree_paths fhs)))"
    by (auto simp: tree_paths_def)
  finally have s: "set ?r = set (remdups (filter (\<lambda>c. tsParentPath c = d) (tree_paths fhs)))" .
  have "sort ?r = sort (remdups (filter (\<lambda>c. tsParentPath c = d) (tree_paths fhs)))"
    by (rule sorted_distinct_set_unique) (simp_all add: dist s)
  then show ?thesis by (simp add: direct_children_def)
qed


lemma dir_node_children:
  assumes "n \<in> set (tsBuildMerkleTree digest fileHashes)"
    and "\<not> isFile n" and "path n \<noteq> ''.''"
  shows "children n = direct_children fileHashes (path n)"
  using dir_node_hash[OF assms] registered_direct_children[OF assms(3), of fileHashes]
  by simp

text \<open>Every directory above a file has a directory node.\<close>

lemma dir_node_exists:
  assumes "f \<in> set fileHashes" and "d \<in> set (ancestors (FileHashEntry.path f))"
  shows "\<exists>n \<in> set (tsBuildMerkleTree digest fileHashes). path n = d \<and> \<not> isFile n"
proof -
  obtain nodes0 dc where ph1: "foldl insertLeaf ([], []) fileHashes = (nodes0, dc)"
    by (cases "foldl insertLeaf ([], []) fileHashes")
  define ds where "ds = deepest_first (map fst dc)"
  define final where "final = foldl (dirStep digest dc) nodes0 ds"
  have res: "tsBuildMerkleTree digest fileHashes = map snd final"
    by (simp add: tsBuildMerkleTree_def ph1 final_def ds_def)
  have "leaves_ok ([], [])" by (simp add: leaves_ok_def nodes_ok_def dc_ok_def)
  from insertLeaves_ok[OF this, of fileHashes] ph1
  have dcok: "dc_ok dc" by (simp add: leaves_ok_def)
  from insertLeaves_keys[of "[]" "[]" fileHashes] ph1 assms
  have "d \<in> fst ` set dc" by auto
  then have "d \<in> set ds" by (simp add: ds_def deepest_first_def)
  then obtain pre post where split: "ds = pre @ d # post" by (auto dest: split_list)
  have "distinct ds" unfolding ds_def deepest_first_def using dcok by (simp add: dc_ok_def)
  with split have dpost: "d \<notin> set post" by simp
  define before where "before = foldl (dirStep digest dc) nodes0 pre"
  define n where "n = \<lparr> path = d,
            hash = digest (concat (sort (map (child_hash before)
                      (sort (case map_of dc d of Some s \<Rightarrow> s | None \<Rightarrow> []))))),
            isFile = False,
            children = sort (case map_of dc d of Some s \<Rightarrow> s | None \<Rightarrow> []) \<rparr>"
  have "map_of final d = map_of (dirStep digest dc before d) d"
    unfolding final_def split before_def using dpost by (rule dirLoop_at)
  then have "map_of final d = Some n" by (simp add: dirStep_at n_def)
  then have "(d, n) \<in> set final" by (rule map_of_SomeD)
  then have "n \<in> set (map snd final)" by force
  moreover have "path n = d" and "\<not> isFile n" by (simp_all add: n_def)
  ultimately show ?thesis unfolding res by blast
qed

text \<open>Every path has one node in the summary.\<close>

lemma tree_distinct: "distinct (map path (tsBuildMerkleTree digest fileHashes))"
proof -
  obtain nodes0 dc where ph1: "foldl insertLeaf ([], []) fileHashes = (nodes0, dc)"
    by (cases "foldl insertLeaf ([], []) fileHashes")
  define final where "final = foldl (dirStep digest dc) nodes0 (deepest_first (map fst dc))"
  have res: "tsBuildMerkleTree digest fileHashes = map snd final"
    by (simp add: tsBuildMerkleTree_def ph1 final_def)
  have "leaves_ok ([], [])" by (simp add: leaves_ok_def nodes_ok_def dc_ok_def)
  from insertLeaves_ok[OF this, of fileHashes] ph1
  have "nodes_ok nodes0" by (simp add: leaves_ok_def)
  then have okf: "nodes_ok final" unfolding final_def by (rule dirLoop_ok)
  then have "\<forall>kn \<in> set final. path (snd kn) = fst kn"
    by (auto simp: nodes_ok_def)
  then have "map path (map snd final) = map fst final"
    by (induction final) simp_all
  moreover from okf have "distinct (map fst final)" by (simp add: nodes_ok_def)
  ultimately show ?thesis unfolding res by (simp only:)
qed

section \<open>The hash of a directory node\<close>

text \<open>The summary of the files \<open>src/a.ts\<close> with hash \<open>ff\<close> and \<open>src/b.ts\<close> with hash
  \<open>00\<close>, for any digest.\<close>

lemma src_files_tree:
  "tsBuildMerkleTree d src_files =
     [\<lparr> path = ''src/a.ts'', hash = ''ff'', isFile = True, children = [] \<rparr>,
      \<lparr> path = ''src/b.ts'', hash = ''00'', isFile = True, children = [] \<rparr>,
      \<lparr> path = ''src'', hash = d ''00ff'', isFile = False,
        children = [''src/a.ts'', ''src/b.ts''] \<rparr>,
      \<lparr> path = ''.'', hash = d (d ''00ff''), isFile = False, children = [''src''] \<rparr>]"
  by code_simp simp

lemma src_files_spec_dir_hash:
  "spec_dir_hash d (tsBuildMerkleTree d src_files)
     \<lparr> path = ''src'', hash = h, isFile = False, children = [''src/a.ts'', ''src/b.ts''] \<rparr>
   = d ''ff00''"
  unfolding src_files_tree by code_simp

text \<open>
  Claim C2, as stated, fails: the builder sorts the children's hashes before it
  concatenates them. For the files \<open>src/a.ts\<close> with hash \<open>ff\<close> and \<open>src/b.ts\<close> with hash
  \<open>00\<close>, the directory \<open>src\<close> gets the SHA-256 digest of \<open>00ff\<close>, which is \<open>8909cde2\<dots>\<close>; in
  the order of the children's paths it would be the digest of \<open>ff00\<close>, which is
  \<open>fe7cbcaa\<dots>\<close>.
\<close>

theorem dir_hash_child_order_counterexample:
  "tsBuildMerkleTree sha256_hex src_files ! 2 =
     \<lparr> path = ''src'',
       hash = ''8909cde2f411a84e86e7a39c8a3916b7cda6a9d977778030b6f6a491401400bc'',
       isFile = False, children = [''src/a.ts'', ''src/b.ts''] \<rparr>
   \<and> spec_dir_hash sha256_hex (tsBuildMerkleTree sha256_hex src_files)
        (tsBuildMerkleTree sha256_hex src_files ! 2)
       = ''fe7cbcaad10cd2cf801edac36b34e40eafdf90feba4c30015fa525ebcf9ab975''
   \<and> spec_dir_hash sha256_hex (tsBuildMerkleTree sha256_hex src_files)
        (tsBuildMerkleTree sha256_hex src_files ! 2)
       \<noteq> hash (tsBuildMerkleTree sha256_hex src_files ! 2)"
proof -
  have n: "tsBuildMerkleTree sha256_hex src_files ! 2 =
     \<lparr> path = ''src'',
       hash = ''8909cde2f411a84e86e7a39c8a3916b7cda6a9d977778030b6f6a491401400bc'',
       isFile = False, children = [''src/a.ts'', ''src/b.ts''] \<rparr>"
    unfolding src_files_tree by (simp add: sha256_hex_00ff)
  have s: "spec_dir_hash sha256_hex (tsBuildMerkleTree sha256_hex src_files)
        (tsBuildMerkleTree sha256_hex src_files ! 2)
       = ''fe7cbcaad10cd2cf801edac36b34e40eafdf90feba4c30015fa525ebcf9ab975''"
    unfolding n by (simp only: src_files_spec_dir_hash sha256_hex_ff00)
  show ?thesis unfolding s unfolding n by simp
qed

text \<open>
  Claim C2, amended. For every list of (path, file hash) pairs: no two nodes of the summary
  have the same path; every directory above a file has a directory node; when the pairs
  are the files of a directory tree, the file nodes of the summary are the pairs, in their
  order; and every directory node other than the root \<open>.\<close> lists exactly the direct
  children of the directory in the file set (the files and directories whose parent path
  is the directory, each once, sorted by path), and has as its hash the digest of the
  concatenation of its children's hashes sorted as strings (the hashes themselves are
  sorted, whatever the order of the children's paths).
\<close>

theorem tsBuildMerkleTree_dir_hash:
  "distinct (map path (tsBuildMerkleTree digest fileHashes))
   \<and> (\<forall>f \<in> set fileHashes. \<forall>d \<in> set (ancestors (FileHashEntry.path f)).
         \<exists>n \<in> set (tsBuildMerkleTree digest fileHashes). path n = d \<and> \<not> isFile n)
   \<and> (file_tree fileHashes \<longrightarrow>
         filter isFile (tsBuildMerkleTree digest fileHashes) = map leafNode fileHashes)
   \<and> (\<forall>n \<in> set (tsBuildMerkleTree digest fileHashes). \<not> isFile n \<and> path n \<noteq> ''.'' \<longrightarrow>
         hash n = digest (concat (sort (map (nodeHash (tsBuildMerkleTree digest fileHashes))
                                            (children n))))
         \<and> children n = direct_children fileHashes (path n)
         \<and> sorted (children n) \<and> (\<forall>c \<in> set (children n). tsParentPath c = path n))"
  using tree_distinct[of digest fileHashes] dir_node_exists[of _ fileHashes _ digest]
    build_file_nodes[of fileHashes digest] dir_node_hash[of _ digest fileHashes]
    dir_node_children[of _ digest fileHashes]
  by blast

theorem tsBuildMerkleTree_dir_hash_witness:
  "file_tree src_files
   \<and> filter isFile (tsBuildMerkleTree sha256_hex src_files) = map leafNode src_files
   \<and> fileHash ''src/a.ts'' ''ff'' \<in> set src_files
   \<and> ''src'' \<in> set (ancestors (FileHashEntry.path (fileHash ''src/a.ts'' ''ff'')))
   \<and> (\<exists>n \<in> set (tsBuildMerkleTree sha256_hex src_files). path n = ''src'' \<and> \<not> isFile n)
   \<and> \<lparr> path = ''src'', hash = sha256_hex ''00ff'', isFile = False,
        children = [''src/a.ts'', ''src/b.ts''] \<rparr> \<in> set (tsBuildMerkleTree sha256_hex src_files)
   \<and> sha256_hex ''00ff''
       = sha256_hex (concat (sort (map (nodeHash (tsBuildMerkleTree sha256_hex src_files))
                                      [''src/a.ts'', ''src/b.ts''])))
   \<and> [''src/a.ts'', ''src/b.ts''] = direct_children src_files ''src''
   \<and> sorted [''src/a.ts'', ''src/b.ts'']
   \<and> tsParentPath ''src/a.ts'' = ''src'' \<and> tsParentPath ''src/b.ts'' = ''src''"
proof -
  let ?T = "tsBuildMerkleTree sha256_hex src_files"
  let ?n = "\<lparr> path = ''src'', hash = sha256_hex ''00ff'', isFile = False,
              children = [''src/a.ts'', ''src/b.ts''] \<rparr>"
  note t = tsBuildMerkleTree_dir_hash[of sha256_hex src_files]
  have ft: "file_tree src_files" by code_simp
  have f: "fileHash ''src/a.ts'' ''ff'' \<in> set src_files" by (simp add: src_files_def)
  have d: "''src'' \<in> set (ancestors (FileHashEntry.path (fileHash ''src/a.ts'' ''ff'')))"
    by code_simp
  have m: "?n \<in> set ?T" by (simp add: src_files_tree)
  have nd: "\<not> isFile ?n \<and> path ?n \<noteq> ''.''" by simp
  from t ft have 1: "filter isFile ?T = map leafNode src_files" by blast
  from t f d have 2: "\<exists>n \<in> set ?T. path n = ''src'' \<and> \<not> isFile n" by blast
  from t m nd
  have "hash ?n = sha256_hex (concat (sort (map (nodeHash ?T) (children ?n))))
        \<and> children ?n = direct_children src_files (path ?n)
        \<and> sorted (children ?n) \<and> (\<forall>c \<in> set (children ?n). tsParentPath c = path ?n)"
    by blast
  then have 3: "sha256_hex ''00ff''
        = sha256_hex (concat (sort (map (nodeHash ?T) [''src/a.ts'', ''src/b.ts''])))
      \<and> [''src/a.ts'', ''src/b.ts''] = direct_children src_files ''src''
      \<and> sorted [''src/a.ts'', ''src/b.ts'']
      \<and> tsParentPath ''src/a.ts'' = ''src'' \<and> tsParentPath ''src/b.ts'' = ''src''"
    unfolding MerkleNode.select_convs list.set ball_simps by blast
  from ft 1 f d 2 m 3 show ?thesis by blast
qed

text \<open>
  The root is left out of the amended claim. The path \<open>.\<close> splits into as many components
  as a top-level directory, and the sort by depth is stable, so the root is hashed before
  a top-level directory that was registered after it: for \<open>README.md\<close> and \<open>src/index.ts\<close>
  the root reads the empty string as the hash of \<open>src\<close>, and is the digest of the hash of
  \<open>README.md\<close> alone.
\<close>

lemma root_hashed_before_top_level_directory:
  "tsBuildMerkleTree d [fileHash ''README.md'' ''aa'', fileHash ''src/index.ts'' ''bb''] =
     [\<lparr> path = ''README.md'', hash = ''aa'', isFile = True, children = [] \<rparr>,
      \<lparr> path = ''src/index.ts'', hash = ''bb'', isFile = True, children = [] \<rparr>,
      \<lparr> path = ''.'', hash = d ''aa'', isFile = False, children = [''README.md'', ''src''] \<rparr>,
      \<lparr> path = ''src'', hash = d ''bb'', isFile = False, children = [''src/index.ts''] \<rparr>]"
  by code_simp

section \<open>Diffing two summaries\<close>

text \<open>
  Claim C3. The diff of a summary with itself is empty in all three lists. For the files
  of a directory tree (no path twice, no file path that is also a directory of the
  tree): adding a new file \<open>f\<close> gives \<open>added = [f]\<close> and nothing removed or modified;
  changing the hash at the path of \<open>f\<close> gives \<open>modified = [f]\<close> and nothing added or
  removed. The diff reads only the file nodes of the two summaries.
\<close>

theorem merkle_round_trip:
  "tsDiffMerkleTrees (tsBuildMerkleTree digest fileHashes) (tsBuildMerkleTree digest fileHashes)
     = \<lparr> added = [], removed = [], modified = [] \<rparr>
   \<and> (file_tree (xs @ f # ys) \<longrightarrow>
        tsDiffMerkleTrees (tsBuildMerkleTree digest (xs @ ys))
          (tsBuildMerkleTree digest (xs @ f # ys))
        = \<lparr> added = [FileHashEntry.path f], removed = [], modified = [] \<rparr>)
   \<and> (file_tree (xs @ f # ys) \<and> FileHashEntry.hash f \<noteq> h' \<longrightarrow>
        tsDiffMerkleTrees (tsBuildMerkleTree digest (xs @ f # ys))
          (tsBuildMerkleTree digest (xs @ f\<lparr>FileHashEntry.hash := h'\<rparr> # ys))
        = \<lparr> added = [], removed = [], modified = [FileHashEntry.path f] \<rparr>)
   \<and> tsDiffMerkleTrees oldNodes newNodes
        = tsDiffMerkleTrees (filter isFile oldNodes) (filter isFile newNodes)"
  using diff_same diff_added diff_modified diff_files_only by blast

theorem merkle_round_trip_witness:
  "file_tree ([fileHash ''src/a.ts'' ''ff''] @ fileHash ''src/b.ts'' ''00'' # [fileHash ''x.ts'' ''11''])
   \<and> FileHashEntry.hash (fileHash ''src/b.ts'' ''00'') \<noteq> ''01''
   \<and> tsDiffMerkleTrees
        (tsBuildMerkleTree sha256_hex ([fileHash ''src/a.ts'' ''ff''] @ [fileHash ''x.ts'' ''11'']))
        (tsBuildMerkleTree sha256_hex
           ([fileHash ''src/a.ts'' ''ff''] @ fileHash ''src/b.ts'' ''00'' # [fileHash ''x.ts'' ''11'']))
       = \<lparr> added = [''src/b.ts''], removed = [], modified = [] \<rparr>
   \<and> tsDiffMerkleTrees
        (tsBuildMerkleTree sha256_hex
           ([fileHash ''src/a.ts'' ''ff''] @ fileHash ''src/b.ts'' ''00'' # [fileHash ''x.ts'' ''11'']))
        (tsBuildMerkleTree sha256_hex
           ([fileHash ''src/a.ts'' ''ff''] @ (fileHash ''src/b.ts'' ''00'')\<lparr>FileHashEntry.hash := ''01''\<rparr>
              # [fileHash ''x.ts'' ''11'']))
       = \<lparr> added = [], removed = [], modified = [''src/b.ts''] \<rparr>"
proof -
  have ft: "file_tree ([fileHash ''src/a.ts'' ''ff''] @ fileHash ''src/b.ts'' ''00''
                         # [fileHash ''x.ts'' ''11''])"
    by code_simp
  have ne: "FileHashEntry.hash (fileHash ''src/b.ts'' ''00'') \<noteq> ''01''"
    by (simp add: fileHash_def)
  have p: "FileHashEntry.path (fileHash ''src/b.ts'' ''00'') = ''src/b.ts''"
    by (simp add: fileHash_def)
  from merkle_round_trip[of sha256_hex "[]" "[fileHash ''src/a.ts'' ''ff'']"
      "fileHash ''src/b.ts'' ''00''" "[fileHash ''x.ts'' ''11'']" "''01''" "[]" "[]"] ft ne
  show ?thesis unfolding p by blast
qed

section \<open>The dataset loader keeps a query without a positive qrel\<close>

text \<open>
  Claim C7 at the failing input: a corpus of two documents capped at one, and a single
  qrel of the query \<open>q1\<close> for the document \<open>c1\<close> with the score 0. No document is relevant,
  the cap fills the corpus with \<open>c1\<close>, and the filter keeps \<open>q1\<close> because \<open>c1\<close> is a key of
  its qrels, although no qrel of \<open>q1\<close> has a positive score. This holds whatever the runtime's
  conversions between strings and numbers are: none is called.
\<close>

theorem load_keeps_query_without_positive_qrel:
  "\<forall>rt.
   queries (load rt ''demo'' \<lparr> maxCorpus = Some 1, maxQueries = None \<rparr>
              zero_corpus zero_qrels zero_queries)
     = [\<lparr> BenchmarkQuery.id = ''q1'', BenchmarkQuery.text_of = ''addition'' \<rparr>]
   \<and> map CorpusEntry.id
        (corpus (load rt ''demo'' \<lparr> maxCorpus = Some 1, maxQueries = None \<rparr>
                   zero_corpus zero_qrels zero_queries))
     = [''c1'']
   \<and> qrels (load rt ''demo'' \<lparr> maxCorpus = Some 1, maxQueries = None \<rparr>
                zero_corpus zero_qrels zero_queries)
     = [(''q1'', [(''c1'', Finite 0)])]
   \<and> \<not> has_positive_in_corpus
          (load rt ''demo'' \<lparr> maxCorpus = Some 1, maxQueries = None \<rparr>
             zero_corpus zero_qrels zero_queries)
          \<lparr> BenchmarkQuery.id = ''q1'', BenchmarkQuery.text_of = ''addition'' \<rparr>"
  by (intro allI) code_simp

section \<open>An index run without changes\<close>

text \<open>
  Claim C5. If the Merkle summary loaded at the start of the run is non-empty and the
  diff against the new summary has empty \<open>added\<close>, \<open>removed\<close> and \<open>modified\<close> lists, then
  \<^verbatim>\<open>index\<close> returns statistics with \<open>totalChunks = 0\<close>, \<open>newChunks = 0\<close> and
  \<open>cachedChunks = 0\<close>, no event happens (no delete and no upsert at the vector store, no
  call of the embedder, no write of the Merkle state or of the cache file), and the cache
  is as before.
\<close>

theorem index_no_changes:
  assumes "loadMerkleState env \<noteq> []"
    and "diffMerkle env (loadMerkleState env) (buildMerkle env (hashFiles env (scanFiles env)))
           = \<lparr> added = [], removed = [], modified = [] \<rparr>"
  shows "Indexer_index env cache =
           (Inr \<lparr> totalFiles = length (scanFiles env), totalChunks = 0, newChunks = 0,
                  cachedChunks = 0, indexTimeMs = endTime env - startTime env \<rparr>,
            [], cache)"
  using assms unfolding Indexer_index_def Let_def by simp

theorem index_no_changes_witness:
  "loadMerkleState second_run \<noteq> []
   \<and> diffMerkle second_run (loadMerkleState second_run)
        (buildMerkle second_run (hashFiles second_run (scanFiles second_run)))
       = \<lparr> added = [], removed = [], modified = [] \<rparr>
   \<and> Indexer_index second_run empty_cache =
        (Inr \<lparr> totalFiles = 1, totalChunks = 0, newChunks = 0, cachedChunks = 0,
               indexTimeMs = 250 \<rparr>,
         [], empty_cache)"
proof -
  have a: "loadMerkleState second_run \<noteq> []" by code_simp
  have b: "diffMerkle second_run (loadMerkleState second_run)
        (buildMerkle second_run (hashFiles second_run (scanFiles second_run)))
       = \<lparr> added = [], removed = [], modified = [] \<rparr>" by code_simp
  have c: "length (scanFiles second_run) = 1" by code_simp
  have d: "endTime second_run - startTime second_run = 250" by code_simp
  from index_no_changes[OF a b, of empty_cache] a b show ?thesis
    unfolding c d by simp
qed

section \<open>Every chunk is counted once\<close>

lemma cache_partition_length:
  "length allChunks
     = length (uncachedChunks cache allChunks) + length (cachedResults cache allChunks)"
  unfolding uncachedChunks_def cachedResults_def
  by (induction allChunks) (auto split: option.splits)

lemma cache_partition_mset:
  "mset allChunks
     = mset (uncachedChunks cache allChunks) + mset (map fst (cachedResults cache allChunks))"
  unfolding uncachedChunks_def cachedResults_def
  by (induction allChunks) (auto split: option.splits)

lemma index_stats_sum:
  assumes "Indexer_index env cache = (Inr stats, evs, cache')"
  shows "totalChunks stats = newChunks stats + cachedChunks stats"
proof -
  define filePaths where "filePaths = scanFiles env"
  define old where "old = loadMerkleState env"
  define diff where "diff = diffMerkle env old (buildMerkle env (hashFiles env filePaths))"
  define allChunks where "allChunks = chunkFiles env
     (if length old = 0 then filePaths
      else map (pathResolve env (rootDir env)) (added diff @ modified diff))"
  have part: "length allChunks
      = length (uncachedChunks cache allChunks) + length (cachedResults cache allChunks)"
    by (rule cache_partition_length)
  show ?thesis
  proof (cases "length (added diff @ modified diff) = 0 \<and> length (removed diff) = 0
                 \<and> length old > 0")
    case True
    with assms show ?thesis
      unfolding Indexer_index_def Let_def
        filePaths_def[symmetric] old_def[symmetric] diff_def[symmetric]
      by (simp only: if_True) auto
  next
    case False
    with assms have "totalChunks stats = length allChunks
        \<and> newChunks stats = length (uncachedChunks cache allChunks)
        \<and> cachedChunks stats = length (cachedResults cache allChunks)"
      unfolding Indexer_index_def Let_def
        filePaths_def[symmetric] old_def[symmetric] diff_def[symmetric]
        allChunks_def[symmetric]
      by (simp only: if_False) (auto split: prod.splits sum.splits if_splits)
    with part show ?thesis by simp
  qed
qed

text \<open>
  Claim C10. Whenever \<^verbatim>\<open>index\<close> returns statistics, \<open>totalChunks = newChunks + cachedChunks\<close>;
  this covers every run that proceeds past the early return for an unchanged tree. The
  partition of step 7 puts every chunk in exactly one of the two lists: the chunks are, as
  a multiset, the uncached chunks together with the chunks of the cached results.
\<close>

theorem index_total_is_new_plus_cached:
  "(Indexer_index env cache = (Inr stats, evs, cache') \<longrightarrow>
      totalChunks stats = newChunks stats + cachedChunks stats)
   \<and> mset allChunks
       = mset (uncachedChunks cache allChunks) + mset (map fst (cachedResults cache allChunks))
   \<and> length allChunks
       = length (uncachedChunks cache allChunks) + length (cachedResults cache allChunks)"
  using index_stats_sum cache_partition_mset cache_partition_length by blast

theorem index_total_is_new_plus_cached_witness:
  "fst (Indexer_index first_run empty_cache)
     = Inr \<lparr> totalFiles = 1, totalChunks = 1, newChunks = 1, cachedChunks = 0,
             indexTimeMs = 250 \<rparr>
   \<and> length (fst (snd (Indexer_index first_run empty_cache))) = 4
   \<and> totalChunks \<lparr> totalFiles = 1, totalChunks = 1, newChunks = 1, cachedChunks = 0,
                    indexTimeMs = 250 \<rparr>
       = newChunks \<lparr> totalFiles = 1, totalChunks = 1, newChunks = 1, cachedChunks = 0,
                     indexTimeMs = 250 \<rparr>
         + cachedChunks \<lparr> totalFiles = 1, totalChunks = 1, newChunks = 1, cachedChunks = 0,
                          indexTimeMs = 250 \<rparr>"
proof -
  let ?stats = "\<lparr> totalFiles = 1, totalChunks = 1, newChunks = 1, cachedChunks = 0,
                   indexTimeMs = 250 \<rparr>"
  have r: "fst (Indexer_index first_run empty_cache) = Inr ?stats" by code_simp
  have n: "length (fst (snd (Indexer_index first_run empty_cache))) = 4" by code_simp
  from r have "Indexer_index first_run empty_cache
       = (Inr ?stats, fst (snd (Indexer_index first_run empty_cache)),
          snd (snd (Indexer_index first_run empty_cache)))"
    by (metis prod.collapse)
  with index_total_is_new_plus_cached[of first_run empty_cache ?stats
      "fst (snd (Indexer_index first_run empty_cache))"
      "snd (snd (Indexer_index first_run empty_cache))" "[]"]
  have "totalChunks ?stats = newChunks ?stats + cachedChunks ?stats" by blast
  with r n show ?thesis by blast
qed

section \<open>Searching a missing collection\<close>

text \<open>
  Claim C6, as stated, fails. \<^verbatim>\<open>Retriever.search\<close> and \<^verbatim>\<open>VectorStore.search\<close> have no
  handler around the client's \<open>search\<close>. With a client that throws for a missing
  collection (as \<^verbatim>\<open>ensureCollection\<close> expects of \<open>getCollection\<close>), the search of the
  retriever ends with that error, not with zero results.
\<close>

theorem search_missing_collection_counterexample:
  "getCollection (store_client missing_retriever) = Inl not_found
   \<and> fst (ensureCollection (store_client missing_retriever)) = Inr ()
   \<and> snd (ensureCollection (store_client missing_retriever)) = [CreateCollection, CreatePayloadIndex]
   \<and> Retriever_search missing_retriever ''addition'' 10 = Inl not_found
   \<and> Retriever_search missing_retriever ''addition'' 10 \<noteq> Inr []"
  by code_simp

text \<open>
  Claim C6, amended. \<^verbatim>\<open>Retriever.search\<close> hands on what the vector-store client answers:
  when the client's \<open>search\<close> throws (as for a collection that does not exist), the
  retriever's search ends with the same error; it returns zero results exactly when the
  query was embedded and the client answered with zero hits.
\<close>

theorem search_propagates_client_error:
  "(embed env query = Inr v \<and> clientSearch (store_client env) v topK = Inl e \<longrightarrow>
      Retriever_search env query topK = Inl e)
   \<and> (Retriever_search env query topK = Inr [] \<longleftrightarrow>
        (\<exists>v. embed env query = Inr v \<and> clientSearch (store_client env) v topK = Inr []))"
  unfolding Retriever_search_def VectorStore_search_def enrichResults_def
  by (auto split: sum.splits)

theorem search_propagates_client_error_witness:
  "embed missing_retriever ''addition'' = Inr [1, 0]
   \<and> clientSearch (store_client missing_retriever) [1, 0] 10 = Inl not_found
   \<and> Retriever_search missing_retriever ''addition'' 10 = Inl not_found
   \<and> Retriever_search empty_retriever ''addition'' 10 = Inr []"
proof -
  have a: "embed missing_retriever ''addition'' = Inr [1, 0]" by code_simp
  have b: "clientSearch (store_client missing_retriever) [1, 0] 10 = Inl not_found" by code_simp
  have c: "embed empty_retriever ''addition'' = Inr [1, 0]" by code_simp
  have d: "clientSearch (store_client empty_retriever) [1, 0] 10 = Inr []" by code_simp
  from search_propagates_client_error[of missing_retriever "''addition''" "[1, 0]" 10 not_found] a b
  have "Retriever_search missing_retriever ''addition'' 10 = Inl not_found" by blast
  moreover
  from search_propagates_client_error[of empty_retriever "''addition''" "[1, 0]" 10 not_found] c d
  have "Retriever_search empty_retriever ''addition'' 10 = Inr []" by blast
  ultimately show ?thesis using a b by blast
qed

end
